theory Spec2Isabelle
  imports Complex_Main "HOL-Library.Sublist" "HOL-Library.Product_Lexorder"
begin

section \<open>Credentials: the installation token and the API client\<close>

text \<open>
  The server object of \<^verbatim>\<open>server.py\<close> keeps three mutable fields that matter here:
  \<^verbatim>\<open>self.github\<close>, \<^verbatim>\<open>self._installation_token\<close> and \<^verbatim>\<open>self._token_expires_at\<close>,
  all \<^verbatim>\<open>None\<close> after \<^verbatim>\<open>__init__\<close>, and the configuration read from the process
  environment. Time stamps are Python floats (seconds since the epoch); they are modelled
  as real numbers, so rounding of the float arithmetic is not represented.

  A client object is modelled by the token it was constructed with: \<^verbatim>\<open>Github(token)\<close>.
\<close>

datatype py_error = ValueError | GithubException nat | OtherException

datatype client = Github string

record server =
  app_id :: "string option"
  private_key_path :: "string option"
  private_key :: "string option"
  installation_id :: "string option"
  github :: "client option"
  installation_token :: "string option"
  token_expires_at :: "real option"

definition init_server ::
  "string option \<Rightarrow> string option \<Rightarrow> string option \<Rightarrow> string option \<Rightarrow> server" where
  "init_server aid path key iid =
     \<lparr>app_id = aid, private_key_path = path, private_key = key, installation_id = iid,
      github = None, installation_token = None, token_expires_at = None\<rparr>"

text \<open>
  What the outside world answers during one call of the token getter: the three readings
  of \<^verbatim>\<open>time.time()\<close> (line 74, line 57, line 98), the content of the key file when it
  exists, the signing library, and the answer of the issuance endpoint.
  \<^verbatim>\<open>expires_at\<close> of the answer is absent (or empty), not parseable by
  \<^verbatim>\<open>datetime.fromisoformat\<close>, or a time stamp.
\<close>

datatype expires = ExpMissing | ExpMalformed | ExpAt real

datatype post_response =
    PostFailed
  | PostOk "string option" expires

record jwt_payload =
  iat :: int
  exp :: int
  iss :: "string option"

datatype http_request = Post string string

record tenv =
  clock_check :: real
  clock_jwt :: real
  clock_store :: real
  key_file :: "string option"
  jwt_encode :: "jwt_payload \<Rightarrow> string \<Rightarrow> string option"
  post :: post_response

text \<open>Python's truth test on an optional string and on an optional float.\<close>

fun truthy_str :: "string option \<Rightarrow> bool" where
  "truthy_str None = False"
| "truthy_str (Some s) = (s \<noteq> [])"

fun truthy_num :: "real option \<Rightarrow> bool" where
  "truthy_num None = False"
| "truthy_num (Some x) = (x \<noteq> 0)"

definition load_private_key :: "tenv \<Rightarrow> server \<Rightarrow> py_error + string" where
  "load_private_key e s =
     (case private_key s of
        Some k \<Rightarrow>
          (if k \<noteq> [] then Inr k
           else if truthy_str (private_key_path s) then
             (case key_file e of Some c \<Rightarrow> Inr c | None \<Rightarrow> Inl ValueError)
           else Inl ValueError)
      | None \<Rightarrow>
          (if truthy_str (private_key_path s) then
             (case key_file e of Some c \<Rightarrow> Inr c | None \<Rightarrow> Inl ValueError)
           else Inl ValueError))"

text \<open>Python's \<^verbatim>\<open>int()\<close> of a float rounds towards zero.\<close>

definition py_int :: "real \<Rightarrow> int" where
  "py_int r = (if 0 \<le> r then \<lfloor>r\<rfloor> else \<lceil>r\<rceil>)"

definition generate_jwt :: "tenv \<Rightarrow> server \<Rightarrow> py_error + string" where
  "generate_jwt e s =
     (case load_private_key e s of
        Inl err \<Rightarrow> Inl ValueError
      | Inr k \<Rightarrow>
          (let now = py_int (clock_jwt e);
               payload = \<lparr>iat = now - 60, exp = now + 10 * 60, iss = app_id s\<rparr>
           in case jwt_encode e payload k of
                None \<Rightarrow> Inl ValueError
              | Some t \<Rightarrow> Inr t))"

definition token_url :: "server \<Rightarrow> string" where
  "token_url s =
     ''https://api.github.com/app/installations/''
       @ (case installation_id s of None \<Rightarrow> ''None'' | Some i \<Rightarrow> i)
       @ ''/access_tokens''"

text \<open>
  The freshness test of lines 73 to 75: both fields are truthy and the clock is more than
  60 seconds before the recorded expiry.
\<close>

definition cached_fresh :: "server \<Rightarrow> real \<Rightarrow> bool" where
  "cached_fresh s t =
     (truthy_str (installation_token s) \<and> truthy_num (token_expires_at s) \<and>
      (case token_expires_at s of None \<Rightarrow> False | Some x \<Rightarrow> t < x - 60))"

text \<open>
  \<^verbatim>\<open>_get_installation_token\<close>. The result is the returned token or the raised error, the
  server after the call, and the HTTP requests performed, in order. The token field is
  assigned (line 91) before the expiry is parsed, so a malformed expiry raises with the
  token already replaced.
\<close>

definition get_installation_token ::
  "tenv \<Rightarrow> server \<Rightarrow> (py_error + string) \<times> server \<times> http_request list" where
  "get_installation_token e s =
     (if cached_fresh s (clock_check e) then
        (case installation_token s of
           Some t \<Rightarrow> (Inr t, s, [])
         | None \<Rightarrow> (Inl ValueError, s, []))
      else
        (case generate_jwt e s of
           Inl err \<Rightarrow> (Inl ValueError, s, [])
         | Inr jwt \<Rightarrow>
             (let rq = [Post (token_url s) jwt] in
              case post e of
                PostFailed \<Rightarrow> (Inl ValueError, s, rq)
              | PostOk None x \<Rightarrow> (Inl ValueError, s, rq)
              | PostOk (Some t) x \<Rightarrow>
                  (let s1 = s\<lparr>installation_token := Some t\<rparr> in
                   case x of
                     ExpMalformed \<Rightarrow> (Inl ValueError, s1, rq)
                   | ExpAt ts \<Rightarrow> (Inr t, s1\<lparr>token_expires_at := Some ts\<rparr>, rq)
                   | ExpMissing \<Rightarrow>
                       (Inr t, s1\<lparr>token_expires_at := Some (clock_store e + 55 * 60)\<rparr>, rq)))))"

text \<open>\<^verbatim>\<open>_get_github_client\<close>: the client is built only while the field is \<^verbatim>\<open>None\<close>.\<close>

definition get_github_client ::
  "tenv \<Rightarrow> server \<Rightarrow> (py_error + client) \<times> server \<times> http_request list" where
  "get_github_client e s =
     (case github s of
        Some c \<Rightarrow> (Inr c, s, [])
      | None \<Rightarrow>
          (case get_installation_token e s of
             (Inl err, s1, rq) \<Rightarrow> (Inl err, s1, rq)
           | (Inr token, s1, rq) \<Rightarrow> (Inr (Github token), s1\<lparr>github := Some (Github token)\<rparr>, rq)))"

text \<open>
  \<^verbatim>\<open>list_repositories\<close> obtains the client like every handler (line 1642), but its listing
  of the installation's repositories (lines 1702 to 1712 and 1767 to 1781) does not go
  through the client: it asks the token getter and puts the returned token into the
  \<^verbatim>\<open>Authorization\<close> header of its own \<^verbatim>\<open>requests.get\<close> calls.
  \<open>list_repositories_token\<close> is that token (or the exception raised on the way), with the
  server and the token requests performed.
\<close>

definition list_repositories_token ::
  "tenv \<Rightarrow> tenv \<Rightarrow> server \<Rightarrow> (py_error + string) \<times> server \<times> http_request list" where
  "list_repositories_token e1 e2 s =
     (case get_github_client e1 s of
        (Inl err, s1, rq) \<Rightarrow> (Inl err, s1, rq)
      | (Inr gh, s1, rq) \<Rightarrow>
          (case get_installation_token e2 s1 of
             (r, s2, rq2) \<Rightarrow> (r, s2, rq @ rq2)))"

text \<open>
  A process is a sequence of tool calls, each with its own answers of the outside world:
  calls that work through the client, and installation listings. \<open>run_calls\<close> returns the
  final server and, for every call, the credential its GitHub requests carry: the client
  handed out, or the token sent directly.
\<close>

datatype credential = ViaClient client | DirectToken string

datatype tool_call = ClientCall tenv | ListInstallation tenv tenv

fun run_calls :: "tool_call list \<Rightarrow> server \<Rightarrow> server \<times> (py_error + credential) list" where
  "run_calls [] s = (s, [])"
| "run_calls (ClientCall e # cs) s =
     (case get_github_client e s of
        (r, s1, rq) \<Rightarrow>
          (case run_calls cs s1 of
             (s2, rs) \<Rightarrow> (s2, (case r of Inl err \<Rightarrow> Inl err | Inr c \<Rightarrow> Inr (ViaClient c)) # rs)))"
| "run_calls (ListInstallation e1 e2 # cs) s =
     (case list_repositories_token e1 e2 s of
        (r, s1, rq) \<Rightarrow>
          (case run_calls cs s1 of
             (s2, rs) \<Rightarrow> (s2, (case r of Inl err \<Rightarrow> Inl err | Inr t \<Rightarrow> Inr (DirectToken t)) # rs)))"

section \<open>Properties of the credential manager\<close>

lemma get_installation_token_github:
  "github (fst (snd (get_installation_token e s))) = github s"
  by (simp add: get_installation_token_def Let_def
      split: sum.splits post_response.splits option.splits expires.splits)

lemma get_github_client_set:
  "github s = Some c \<Longrightarrow> get_github_client e s = (Inr c, s, [])"
  by (simp add: get_github_client_def)

lemma list_repositories_token_set:
  "github s = Some c \<Longrightarrow>
     list_repositories_token e1 e2 s =
       (fst (get_installation_token e2 s), fst (snd (get_installation_token e2 s)),
        snd (snd (get_installation_token e2 s)))"
  by (simp add: list_repositories_token_def get_github_client_set split: prod.splits)

lemma list_repositories_token_github:
  "github s = Some c \<Longrightarrow> github (fst (snd (list_repositories_token e1 e2 s))) = Some c"
  by (simp add: list_repositories_token_set get_installation_token_github)

lemma run_calls_client:
  "github s = Some c \<Longrightarrow>
     github (fst (run_calls cs s)) = Some c \<and>
     (\<forall>c'. Inr (ViaClient c') \<in> set (snd (run_calls cs s)) \<longrightarrow> c' = c)"
proof (induction cs arbitrary: s)
  case Nil
  then show ?case by simp
next
  case (Cons a cs)
  show ?case
  proof (cases a)
    case (ClientCall e)
    with Cons.prems Cons.IH [of s] show ?thesis
      by (auto simp: get_github_client_set split: prod.splits)
  next
    case (ListInstallation e1 e2)
    obtain r s1 rq where g: "list_repositories_token e1 e2 s = (r, s1, rq)"
      by (cases "list_repositories_token e1 e2 s") auto
    have "github s1 = Some c"
      using list_repositories_token_github [of s c e1 e2] g Cons.prems by simp
    with Cons.IH [of s1] g ListInstallation show ?thesis
      by (auto split: prod.splits sum.splits)
  qed
qed

lemma cached_fresh_token:
  "cached_fresh s t \<Longrightarrow> \<exists>tok. installation_token s = Some tok"
  by (cases "installation_token s") (simp_all add: cached_fresh_def)

lemma get_installation_token_fresh:
  "cached_fresh s (clock_check e) \<Longrightarrow> installation_token s = Some tok \<Longrightarrow>
     get_installation_token e s = (Inr tok, s, [])"
  by (simp add: get_installation_token_def)

lemma get_installation_token_returned:
  "get_installation_token e s = (Inr tok, s1, rq) \<Longrightarrow> installation_token s1 = Some tok"
  by (auto simp: get_installation_token_def Let_def
      split: if_splits sum.splits post_response.splits option.splits expires.splits)

lemma get_installation_token_requests:
  "length (snd (snd (get_installation_token e s))) \<le> 1"
  by (simp add: get_installation_token_def Let_def
      split: sum.splits post_response.splits option.splits expires.splits)

text \<open>
  Claim C2. A call of the token getter that finds a cached token (the field is truthy)
  whose recorded expiry is more than 60 seconds ahead returns that token, leaves the
  server unchanged and performs no HTTP request. Otherwise, when the assertion can be
  signed and the endpoint answers with a token, exactly one request is performed, the new
  token is cached and returned, and the recorded expiry is the one of the answer, or the
  clock plus 55 minutes when the answer has none. No call performs more than one request.
  Hence a second call inside the freshness window of the state left by a successful first
  call returns the identical token with no request.
\<close>

theorem token_getter_caches:
  "(cached_fresh s (clock_check e) \<longrightarrow>
      (\<exists>tok. installation_token s = Some tok \<and>
             get_installation_token e s = (Inr tok, s, []))) \<and>
   (\<not> cached_fresh s (clock_check e) \<and> generate_jwt e s = Inr jwt \<and>
    post e = PostOk (Some t) x \<and> x \<noteq> ExpMalformed \<longrightarrow>
      get_installation_token e s =
        (Inr t,
         s\<lparr>installation_token := Some t,
           token_expires_at :=
             Some (case x of ExpAt ts \<Rightarrow> ts | _ \<Rightarrow> clock_store e + 55 * 60)\<rparr>,
         [Post (token_url s) jwt])) \<and>
   length (snd (snd (get_installation_token e s))) \<le> 1 \<and>
   (get_installation_token e s = (Inr t1, s1, rq) \<and> cached_fresh s1 (clock_check e2) \<longrightarrow>
      get_installation_token e2 s1 = (Inr t1, s1, []))"
proof (intro conjI impI)
  assume "cached_fresh s (clock_check e)"
  then show "\<exists>tok. installation_token s = Some tok \<and>
                 get_installation_token e s = (Inr tok, s, [])"
    using cached_fresh_token get_installation_token_fresh by blast
next
  assume a: "\<not> cached_fresh s (clock_check e) \<and> generate_jwt e s = Inr jwt \<and>
             post e = PostOk (Some t) x \<and> x \<noteq> ExpMalformed"
  then show "get_installation_token e s =
        (Inr t,
         s\<lparr>installation_token := Some t,
           token_expires_at :=
             Some (case x of ExpAt ts \<Rightarrow> ts | _ \<Rightarrow> clock_store e + 55 * 60)\<rparr>,
         [Post (token_url s) jwt])"
    by (cases x) (simp_all add: get_installation_token_def Let_def)
next
  show "length (snd (snd (get_installation_token e s))) \<le> 1"
    by (rule get_installation_token_requests)
next
  assume b: "get_installation_token e s = (Inr t1, s1, rq) \<and> cached_fresh s1 (clock_check e2)"
  then have "installation_token s1 = Some t1"
    using get_installation_token_returned by blast
  with b show "get_installation_token e2 s1 = (Inr t1, s1, [])"
    by (simp add: get_installation_token_fresh)
qed

text \<open>
  A fresh server mints \<open>tok1\<close> at time 1000 from an answer without expiry (one request,
  expiry 4300); a second call at time 2000 returns \<open>tok1\<close> with no request.
\<close>

definition env_mint :: "real \<Rightarrow> string \<Rightarrow> expires \<Rightarrow> tenv" where
  "env_mint t tok x =
     \<lparr>clock_check = t, clock_jwt = t, clock_store = t, key_file = None,
      jwt_encode = (\<lambda>p k. Some ''jwt''), post = PostOk (Some tok) x\<rparr>"

definition server0 :: server where
  "server0 = init_server (Some ''7'') None (Some ''key'') (Some ''42'')"

definition server1 :: server where
  "server1 = server0\<lparr>installation_token := Some ''tok1'', token_expires_at := Some 4300\<rparr>"

theorem token_getter_caches_witness:
  "\<not> cached_fresh server0 (clock_check (env_mint 1000 ''tok1'' ExpMissing)) \<and>
   generate_jwt (env_mint 1000 ''tok1'' ExpMissing) server0 = Inr ''jwt'' \<and>
   get_installation_token (env_mint 1000 ''tok1'' ExpMissing) server0 =
     (Inr ''tok1'', server1,
      [Post ''https://api.github.com/app/installations/42/access_tokens'' ''jwt'']) \<and>
   cached_fresh server1 (clock_check (env_mint 2000 ''tok2'' ExpMissing)) \<and>
   get_installation_token (env_mint 2000 ''tok2'' ExpMissing) server1 =
     (Inr ''tok1'', server1, [])"
proof -
  let ?e = "env_mint 1000 ''tok1'' ExpMissing" and ?e2 = "env_mint 2000 ''tok2'' ExpMissing"
  have nf: "\<not> cached_fresh server0 (clock_check ?e)"
    by (simp add: cached_fresh_def server0_def init_server_def)
  have j: "generate_jwt ?e server0 = Inr ''jwt''"
    by (simp add: generate_jwt_def load_private_key_def env_mint_def server0_def
        init_server_def)
  have p: "post ?e = PostOk (Some ''tok1'') ExpMissing"
    by (simp add: env_mint_def)
  have u: "token_url server0 = ''https://api.github.com/app/installations/42/access_tokens''"
    by (simp add: token_url_def server0_def init_server_def)
  have st: "server0\<lparr>installation_token := Some ''tok1'',
              token_expires_at := Some (clock_store ?e + 55 * 60)\<rparr> = server1"
    by (simp add: server1_def env_mint_def)
  have f: "cached_fresh server1 (clock_check ?e2)"
    by (simp add: cached_fresh_def server1_def env_mint_def)
  from token_getter_caches [of server0 ?e "''jwt''" "''tok1''" ExpMissing "''tok1''" server1
      "[Post ''https://api.github.com/app/installations/42/access_tokens'' ''jwt'']" ?e2]
  show ?thesis using nf j p u st f by simp
qed

lemma get_installation_token_minted:
  assumes "\<not> cached_fresh s (clock_check e)"
    and "get_installation_token e s = (Inr tok, s1, rq)"
  shows "\<exists>jwt x. generate_jwt e s = Inr jwt \<and> post e = PostOk (Some tok) x \<and>
           rq = [Post (token_url s) jwt]"
  using assms
  by (auto simp: get_installation_token_def Let_def
      split: sum.splits post_response.splits option.splits expires.splits)

text \<open>
  Claim C9, amended. The client is constructed at most once: the first successful call of
  the client getter stores a client built with the token the token getter returned, and
  from a server whose client field is set, every call of the client getter returns that
  same client, changes nothing and performs no request, whatever the clock says and
  whatever the token getter does in between; so every call that works through the client
  keeps the token the client was built with. The installation listing of
  \<^verbatim>\<open>list_repositories\<close> is different: the token it sends is the one the token getter
  returns at that moment, the cached one while it is fresh and otherwise the one the
  endpoint has just issued; the client field stays as it is.
\<close>

theorem client_constructed_once:
  "(github s0 = None \<and> get_github_client e0 s0 = (Inr c0, s', rq) \<longrightarrow>
      github s' = Some c0 \<and> (\<exists>tok. c0 = Github tok \<and> installation_token s' = Some tok)) \<and>
   (github s = Some c \<longrightarrow>
      get_github_client e s = (Inr c, s, []) \<and>
      github (fst (snd (get_installation_token e s))) = Some c \<and>
      github (fst (run_calls cs s)) = Some c \<and>
      (\<forall>c'. Inr (ViaClient c') \<in> set (snd (run_calls cs s)) \<longrightarrow> c' = c)) \<and>
   (github s = Some c \<and> list_repositories_token e1 e2 s = (Inr tok, s2, rq2) \<longrightarrow>
      github s2 = Some c \<and> installation_token s2 = Some tok \<and>
      (cached_fresh s (clock_check e2) \<longrightarrow> installation_token s = Some tok \<and> rq2 = []) \<and>
      (\<not> cached_fresh s (clock_check e2) \<longrightarrow>
         (\<exists>jwt x. post e2 = PostOk (Some tok) x \<and> rq2 = [Post (token_url s) jwt])))"
proof -
  have first: "github s' = Some c0 \<and>
      (\<exists>tok. c0 = Github tok \<and> installation_token s' = Some tok)"
    if a: "github s0 = None \<and> get_github_client e0 s0 = (Inr c0, s', rq)"
  proof -
    obtain r s1 rq1 where g: "get_installation_token e0 s0 = (r, s1, rq1)"
      by (cases "get_installation_token e0 s0") auto
    from a g obtain tok where r: "r = Inr tok" and c0: "c0 = Github tok"
      and s': "s' = s1\<lparr>github := Some (Github tok)\<rparr>"
      by (cases r) (auto simp: get_github_client_def)
    have "installation_token s1 = Some tok"
      using g r get_installation_token_returned by blast
    with c0 s' show ?thesis by simp
  qed
  have later: "get_github_client e s = (Inr c, s, []) \<and>
      github (fst (snd (get_installation_token e s))) = Some c \<and>
      github (fst (run_calls cs s)) = Some c \<and>
      (\<forall>c'. Inr (ViaClient c') \<in> set (snd (run_calls cs s)) \<longrightarrow> c' = c)"
    if b: "github s = Some c"
    using b get_github_client_set [of s c e] get_installation_token_github [of e s]
      run_calls_client [of s c cs]
    by simp
  have direct: "github s2 = Some c \<and> installation_token s2 = Some tok \<and>
      (cached_fresh s (clock_check e2) \<longrightarrow> installation_token s = Some tok \<and> rq2 = []) \<and>
      (\<not> cached_fresh s (clock_check e2) \<longrightarrow>
         (\<exists>jwt x. post e2 = PostOk (Some tok) x \<and> rq2 = [Post (token_url s) jwt]))"
    if d: "github s = Some c \<and> list_repositories_token e1 e2 s = (Inr tok, s2, rq2)"
  proof -
    from d have g: "get_installation_token e2 s = (Inr tok, s2, rq2)"
      using list_repositories_token_set [of s c e1 e2] by simp
    have g1: "github s2 = Some c"
      using d list_repositories_token_github [of s c e1 e2] by simp
    have g2: "installation_token s2 = Some tok"
      using g get_installation_token_returned by blast
    have g3: "installation_token s = Some tok \<and> rq2 = []"
      if f: "cached_fresh s (clock_check e2)"
    proof -
      from cached_fresh_token [OF f] obtain t where t: "installation_token s = Some t" by blast
      from get_installation_token_fresh [OF f t] g show ?thesis using t by simp
    qed
    have g4: "\<exists>jwt x. post e2 = PostOk (Some tok) x \<and> rq2 = [Post (token_url s) jwt]"
      if "\<not> cached_fresh s (clock_check e2)"
      using get_installation_token_minted [OF that g] by blast
    from g1 g2 g3 g4 show ?thesis by blast
  qed
  from first later direct show ?thesis by blast
qed

text \<open>
  The client is built with \<open>tok1\<close>. At time 5000 the cached token has expired: the token
  getter mints \<open>tok2\<close>, a call through the client still carries \<open>tok1\<close>, and the
  installation listing sends \<open>tok2\<close>.
\<close>

definition server2 :: server where
  "server2 = server1\<lparr>github := Some (Github ''tok1'')\<rparr>"

theorem client_constructed_once_witness:
  "github server1 = None \<and>
   get_github_client (env_mint 2000 ''tok2'' ExpMissing) server1 =
     (Inr (Github ''tok1''), server2, []) \<and>
   github server2 = Some (Github ''tok1'') \<and>
   get_github_client (env_mint 5000 ''tok2'' ExpMissing) server2 =
     (Inr (Github ''tok1''), server2, []) \<and>
   fst (list_repositories_token (env_mint 5000 ''tok2'' ExpMissing)
          (env_mint 5000 ''tok2'' ExpMissing) server2) = Inr ''tok2'' \<and>
   github (fst (snd (list_repositories_token (env_mint 5000 ''tok2'' ExpMissing)
          (env_mint 5000 ''tok2'' ExpMissing) server2))) = Some (Github ''tok1'') \<and>
   installation_token (fst (snd (list_repositories_token (env_mint 5000 ''tok2'' ExpMissing)
          (env_mint 5000 ''tok2'' ExpMissing) server2))) = Some ''tok2''"
proof -
  let ?e = "env_mint 2000 ''tok2'' ExpMissing" and ?e5 = "env_mint 5000 ''tok2'' ExpMissing"
  have n: "github server1 = None"
    by (simp add: server1_def server0_def init_server_def)
  have f: "cached_fresh server1 (clock_check ?e)"
    by (simp add: cached_fresh_def server1_def env_mint_def)
  have g: "get_github_client ?e server1 = (Inr (Github ''tok1''), server2, [])"
    using n f
    by (simp add: get_github_client_def get_installation_token_def server2_def)
       (simp add: server1_def)
  have s2: "github server2 = Some (Github ''tok1'')"
    by (simp add: server2_def)
  have m: "fst (get_installation_token ?e5 server2) = Inr ''tok2''"
    by (simp add: get_installation_token_def cached_fresh_def server2_def server1_def
        server0_def init_server_def env_mint_def generate_jwt_def load_private_key_def
        py_int_def)
  obtain r sa rq where l: "list_repositories_token ?e5 ?e5 server2 = (r, sa, rq)"
    by (cases "list_repositories_token ?e5 ?e5 server2") auto
  have r: "r = Inr ''tok2''"
    using l m list_repositories_token_set [OF s2, of ?e5 ?e5] by simp
  note T = client_constructed_once [where s = server2 and c = "Github ''tok1''" and e = ?e5
      and ?e1.0 = ?e5 and ?e2.0 = ?e5 and tok = "''tok2''" and ?s2.0 = sa and ?rq2.0 = rq
      and ?s0.0 = server1 and ?e0.0 = ?e and ?c0.0 = "Github ''tok1''" and s' = server2
      and rq = "[]"]
  from T n g have "\<exists>t. Github ''tok1'' = Github t \<and> installation_token server2 = Some t"
    by blast
  from T s2 have k: "get_github_client ?e5 server2 = (Inr (Github ''tok1''), server2, [])"
    by blast
  from T s2 l r have d: "github sa = Some (Github ''tok1'') \<and> installation_token sa = Some ''tok2''"
    by blast
  from n g s2 k l r d show ?thesis by simp
qed

text \<open>
  Claim C9 as stated fails in its last clause: with the client built with \<open>tok1\<close> and the
  cached token expired, the installation listing of \<^verbatim>\<open>list_repositories\<close> sends the newly
  minted \<open>tok2\<close>, not the token of the client.
\<close>

theorem client_token_counterexample:
  "github server2 = Some (Github ''tok1'') \<and>
   snd (run_calls [ClientCall (env_mint 5000 ''tok2'' ExpMissing),
                   ListInstallation (env_mint 5000 ''tok2'' ExpMissing)
                     (env_mint 5000 ''tok2'' ExpMissing)] server2) =
     [Inr (ViaClient (Github ''tok1'')), Inr (DirectToken ''tok2'')]"
  by (simp add: run_calls.simps list_repositories_token_def get_github_client_def
      get_installation_token_def cached_fresh_def server2_def server1_def server0_def
      init_server_def env_mint_def generate_jwt_def load_private_key_def py_int_def Let_def)

section \<open>Branch-name normalisation of \<^verbatim>\<open>create_branch\<close>\<close>

text \<open>
  A Python \<^verbatim>\<open>str\<close> is a sequence of Unicode code points; it is modelled as a list of
  natural numbers, and \<open>ustr\<close> turns an ASCII literal into such a list.

  \<^verbatim>\<open>str.strip()\<close> removes the characters for which \<^verbatim>\<open>str.isspace\<close> holds; these are
  finitely many and listed in \<open>is_space\<close>. The class \<^verbatim>\<open>\w\<close> of the \<^verbatim>\<open>re\<close> module is, on
  ASCII, the letters, the digits and the underscore. Beyond ASCII it is decided by the
  interpreter's Unicode database, which is not part of the repository: it is the
  parameter \<open>U\<close> of the model.
\<close>

type_synonym ustring = "nat list"

definition ustr :: "string \<Rightarrow> ustring" where
  "ustr s = map of_char s"

definition c_slash :: nat where "c_slash = 47"
definition c_dot :: nat where "c_dot = 46"
definition c_hyphen :: nat where "c_hyphen = 45"

definition is_space :: "nat \<Rightarrow> bool" where
  "is_space c =
     ((9 \<le> c \<and> c \<le> 13) \<or> (28 \<le> c \<and> c \<le> 32) \<or> c = 133 \<or> c = 160 \<or> c = 5760 \<or>
      (8192 \<le> c \<and> c \<le> 8202) \<or> c = 8232 \<or> c = 8233 \<or> c = 8239 \<or> c = 8287 \<or>
      c = 12288)"

definition ascii_word :: "nat \<Rightarrow> bool" where
  "ascii_word c =
     ((48 \<le> c \<and> c \<le> 57) \<or> (65 \<le> c \<and> c \<le> 90) \<or> (97 \<le> c \<and> c \<le> 122) \<or> c = 95)"

definition is_word :: "(nat \<Rightarrow> bool) \<Rightarrow> nat \<Rightarrow> bool" where
  "is_word U c = (if c < 128 then ascii_word c else U c)"

definition startswith :: "ustring \<Rightarrow> ustring \<Rightarrow> bool" where
  "startswith s p = prefix p s"

text \<open>\<^verbatim>\<open>s.strip(chars)\<close>: drop the characters of the set at both ends.\<close>

definition rstrip :: "(nat \<Rightarrow> bool) \<Rightarrow> ustring \<Rightarrow> ustring" where
  "rstrip P s = rev (dropWhile P (rev s))"

definition strip :: "(nat \<Rightarrow> bool) \<Rightarrow> ustring \<Rightarrow> ustring" where
  "strip P s = rstrip P (dropWhile P s)"

text \<open>The characters of \<^verbatim>\<open>strip('/.-')\<close>.\<close>

definition trim_set :: "nat \<Rightarrow> bool" where
  "trim_set c = (c = c_slash \<or> c = c_dot \<or> c = c_hyphen)"

text \<open>\<^verbatim>\<open>s.split('/')[-1]\<close>: what follows the last slash.\<close>

definition last_part :: "ustring \<Rightarrow> ustring" where
  "last_part s = rev (takeWhile (\<lambda>c. c \<noteq> c_slash) (rev s))"

text \<open>\<^verbatim>\<open>re.sub(r'[^\w\-/]', '-', s)\<close>.\<close>

definition allowed :: "(nat \<Rightarrow> bool) \<Rightarrow> nat \<Rightarrow> bool" where
  "allowed U c = (is_word U c \<or> c = c_hyphen \<or> c = c_slash)"

definition replace_disallowed :: "(nat \<Rightarrow> bool) \<Rightarrow> ustring \<Rightarrow> ustring" where
  "replace_disallowed U s = map (\<lambda>c. if allowed U c then c else c_hyphen) s"

text \<open>
  \<^verbatim>\<open>re.sub(r'[/]{2,}', '/', s)\<close> and \<^verbatim>\<open>re.sub(r'\.{2,}', '.', s)\<close>: every maximal run of
  two or more copies of the character becomes one copy.
\<close>

fun collapse :: "nat \<Rightarrow> ustring \<Rightarrow> ustring" where
  "collapse c [] = []"
| "collapse c [x] = [x]"
| "collapse c (x # y # zs) =
     (if x = c \<and> y = c then collapse c (y # zs) else x # collapse c (y # zs))"

text \<open>Lines 673 to 699 of \<^verbatim>\<open>create_branch\<close>.\<close>

definition normalize_branch_name :: "(nat \<Rightarrow> bool) \<Rightarrow> ustring \<Rightarrow> ustring" where
  "normalize_branch_name U branch_name =
     (let n0 = strip is_space branch_name;
          n1 = (if \<not> startswith n0 (ustr ''c3/'') then
                  (if c_slash \<in> set n0 then ustr ''c3/'' @ last_part n0
                   else ustr ''c3/'' @ n0)
                else n0);
          n2 = replace_disallowed U n1;
          n3 = collapse c_slash n2;
          n4 = collapse c_dot n3;
          n5 = strip trim_set n4
      in if \<not> startswith n5 (ustr ''c3/'') then ustr ''c3/'' @ n5 else n5)"

section \<open>Properties of the normalisation\<close>

definition U0 :: "nat \<Rightarrow> bool" where
  "U0 c = (c = 233 \<or> c = 20013)"


fun nodouble :: "nat \<Rightarrow> ustring \<Rightarrow> bool" where
  "nodouble c [] = True"
| "nodouble c [x] = True"
| "nodouble c (x # y # zs) = (\<not> (x = c \<and> y = c) \<and> nodouble c (y # zs))"

lemma collapse_hd: "\<exists>ys. collapse c (c # xs) = c # ys"
  by (induction xs) auto

lemma collapse_set: "set (collapse c xs) \<subseteq> set xs"
  by (induction c xs rule: collapse.induct) auto

lemma collapse_absent: "c \<notin> set xs \<Longrightarrow> collapse c xs = xs"
  by (induction c xs rule: collapse.induct) auto

lemma collapse_hd_same: "xs \<noteq> [] \<Longrightarrow> hd (collapse c xs) = hd xs"
  by (induction c xs rule: collapse.induct) auto

lemma collapse_nonempty: "xs \<noteq> [] \<Longrightarrow> collapse c xs \<noteq> []"
  by (induction c xs rule: collapse.induct) auto

lemma nodouble_collapse: "nodouble c (collapse c xs)"
proof (induction c xs rule: collapse.induct)
  case (3 c x y zs)
  then show ?case
    using collapse_hd_same [of "y # zs" c] collapse_nonempty [of "y # zs" c]
    by (cases "collapse c (y # zs)") auto
qed auto

lemma nodouble_fixed: "nodouble c xs \<Longrightarrow> collapse c xs = xs"
  by (induction c xs rule: collapse.induct) auto

lemma nodouble_append: "nodouble c (xs @ ys) \<Longrightarrow> nodouble c xs"
  by (induction c xs rule: nodouble.induct) auto

lemma rstrip_snoc: "rstrip P (xs @ [x]) = (if P x then rstrip P xs else xs @ [x])"
  by (simp add: rstrip_def)

lemma rstrip_Cons: "\<not> P x \<Longrightarrow> rstrip P (x # xs) = x # rstrip P xs"
proof (induction xs rule: rev_induct)
  case Nil
  then show ?case by (simp add: rstrip_def)
next
  case (snoc y ys)
  have "rstrip P (x # ys @ [y]) = rstrip P ((x # ys) @ [y])" by simp
  also have "\<dots> = (if P y then rstrip P (x # ys) else (x # ys) @ [y])"
    by (rule rstrip_snoc)
  finally show ?case using snoc by (simp add: rstrip_snoc)
qed

lemma rstrip_prefix: "prefix (rstrip P xs) xs"
proof -
  have "rev xs = takeWhile P (rev xs) @ dropWhile P (rev xs)" by simp
  then have "xs = rev (dropWhile P (rev xs)) @ rev (takeWhile P (rev xs))"
    by (metis rev_append rev_rev_ident)
  then show ?thesis unfolding rstrip_def by (metis prefixI)
qed

lemma rstrip_last: "rstrip P xs \<noteq> [] \<Longrightarrow> \<not> P (last (rstrip P xs))"
  unfolding rstrip_def by (simp add: last_rev hd_dropWhile)

lemma rstrip_id: "xs \<noteq> [] \<Longrightarrow> \<not> P (last xs) \<Longrightarrow> rstrip P xs = xs"
  by (cases xs rule: rev_cases) (simp_all add: rstrip_snoc)


definition good :: "(nat \<Rightarrow> bool) \<Rightarrow> ustring \<Rightarrow> bool" where
  "good U s =
     (prefix (ustr ''c3/'') s \<and> (\<forall>c\<in>set s. allowed U c) \<and> nodouble c_slash s \<and>
      \<not> trim_set (last s))"

lemma c3_code: "ustr ''c3/'' = [99, 51, 47]"
  by (simp add: ustr_def)

lemma allowed_c3: "allowed U 99" "allowed U 51" "allowed U 47"
  by (simp_all add: allowed_def is_word_def ascii_word_def c_slash_def)

lemma not_allowed_dot: "\<not> allowed U c_dot"
  by (simp add: allowed_def is_word_def ascii_word_def c_slash_def c_dot_def c_hyphen_def)

lemma allowed_not_space:
  assumes "\<forall>c\<ge>128. U c \<longrightarrow> \<not> is_space c" and "allowed U c" and "\<not> trim_set c"
  shows "\<not> is_space c"
proof (cases "c < 128")
  case True
  with assms(2,3) have "ascii_word c"
    by (simp add: allowed_def is_word_def trim_set_def)
  then show ?thesis by (auto simp: ascii_word_def is_space_def)
next
  case False
  with assms(2,3) have "U c"
    by (simp add: allowed_def is_word_def trim_set_def)
  with assms(1) False show ?thesis by simp
qed

lemma replace_disallowed_allowed: "\<forall>c\<in>set (replace_disallowed U s). allowed U c"
  by (auto simp: replace_disallowed_def allowed_def)

lemma replace_disallowed_id: "\<forall>c\<in>set s. allowed U c \<Longrightarrow> replace_disallowed U s = s"
  by (simp add: replace_disallowed_def map_idI)

lemma replace_disallowed_c3:
  "replace_disallowed U (99 # 51 # 47 # r) = 99 # 51 # 47 # replace_disallowed U r"
  using allowed_c3 [of U] by (simp add: replace_disallowed_def)

lemma collapse_c3:
  "\<exists>r'. collapse c_slash (99 # 51 # 47 # r) = 99 # 51 # 47 # r'"
  using collapse_hd [of c_slash r] by (auto simp: c_slash_def)

text \<open>The name before the last two steps: prefixed, clean, without double slashes.\<close>

lemma stage4:
  fixes U s
  defines "n0 \<equiv> strip is_space s"
  defines "n1 \<equiv> (if \<not> startswith n0 (ustr ''c3/'') then
                  (if c_slash \<in> set n0 then ustr ''c3/'' @ last_part n0
                   else ustr ''c3/'' @ n0)
                else n0)"
  defines "n4 \<equiv> collapse c_dot (collapse c_slash (replace_disallowed U n1))"
  shows "\<exists>r. n4 = 99 # 51 # 47 # r \<and> (\<forall>c\<in>set n4. allowed U c) \<and> nodouble c_slash n4"
proof -
  have "prefix (ustr ''c3/'') n1"
    by (simp add: n1_def startswith_def)
  then obtain r1 where n1: "n1 = 99 # 51 # 47 # r1"
    by (auto simp: c3_code prefix_def)
  let ?n2 = "replace_disallowed U n1" and ?n3 = "collapse c_slash (replace_disallowed U n1)"
  have a2: "\<forall>c\<in>set ?n2. allowed U c" by (rule replace_disallowed_allowed)
  have a3: "\<forall>c\<in>set ?n3. allowed U c"
    using a2 collapse_set [of c_slash ?n2] by blast
  have "c_dot \<notin> set ?n3" using a3 not_allowed_dot by blast
  then have n4: "n4 = ?n3" by (simp add: n4_def collapse_absent)
  obtain r where "?n3 = 99 # 51 # 47 # r"
    using collapse_c3 [of "replace_disallowed U r1"] by (auto simp: n1 replace_disallowed_c3)
  with n4 a3 nodouble_collapse [of c_slash ?n2] show ?thesis by simp
qed

lemma finish_good:
  assumes n4: "n4 = 99 # 51 # 47 # r" and al: "\<forall>c\<in>set n4. allowed U c"
    and nd: "nodouble c_slash n4"
  defines "n5 \<equiv> strip trim_set n4"
  shows "good U (if \<not> startswith n5 (ustr ''c3/'') then ustr ''c3/'' @ n5 else n5)"
proof -
  have nt: "\<not> trim_set 99" "\<not> trim_set 51"
    by (simp_all add: trim_set_def c_slash_def c_dot_def c_hyphen_def)
  have n5: "n5 = 99 # 51 # rstrip trim_set (47 # r)"
    using nt by (simp add: n5_def strip_def n4 rstrip_Cons)
  have pre: "prefix n5 n4"
    using nt rstrip_prefix [of trim_set n4] by (simp add: n5_def strip_def n4)
  then have al5: "\<forall>c\<in>set n5. allowed U c"
    using al set_mono_prefix by blast
  have nd5: "nodouble c_slash n5"
    using pre nd nodouble_append by (auto simp: prefix_def)
  have ne: "n5 \<noteq> []" using n5 by simp
  have "rstrip trim_set n4 = n5" using nt by (simp add: n5_def strip_def n4)
  then have la: "\<not> trim_set (last n5)"
    using rstrip_last [of trim_set n4] ne by simp
  show ?thesis
  proof (cases "startswith n5 (ustr ''c3/'')")
    case True
    with al5 nd5 la show ?thesis by (simp add: good_def startswith_def)
  next
    case False
    have "nodouble c_slash (ustr ''c3/'' @ n5)"
      using nd5 n5 by (simp add: c3_code c_slash_def)
    moreover have "\<forall>c\<in>set (ustr ''c3/'' @ n5). allowed U c"
      using al5 allowed_c3 [of U] by (auto simp: c3_code)
    ultimately show ?thesis using False la ne by (simp add: good_def)
  qed
qed

lemma normalize_good: "good U (normalize_branch_name U s)"
proof -
  let ?n0 = "strip is_space s"
  let ?n1 = "if \<not> startswith ?n0 (ustr ''c3/'') then
               (if c_slash \<in> set ?n0 then ustr ''c3/'' @ last_part ?n0
                else ustr ''c3/'' @ ?n0)
             else ?n0"
  let ?n4 = "collapse c_dot (collapse c_slash (replace_disallowed U ?n1))"
  obtain r where a: "?n4 = 99 # 51 # 47 # r" and b: "\<forall>c\<in>set ?n4. allowed U c"
    and c: "nodouble c_slash ?n4"
    using stage4 [of U s] by blast
  show ?thesis
    unfolding normalize_branch_name_def Let_def by (rule finish_good [OF a b c])
qed

lemma normalize_fixed:
  assumes U: "\<forall>c\<ge>128. U c \<longrightarrow> \<not> is_space c" and g: "good U s"
  shows "normalize_branch_name U s = s"
proof -
  from g obtain r where s: "s = 99 # 51 # 47 # r"
    by (auto simp: good_def c3_code prefix_def)
  have al: "\<forall>c\<in>set s. allowed U c" and nd: "nodouble c_slash s"
    and la: "\<not> trim_set (last s)" and pre: "startswith s (ustr ''c3/'')"
    using g by (simp_all add: good_def startswith_def)
  have "allowed U (last s)" using al s by (metis last_in_set list.distinct(1))
  then have "\<not> is_space (last s)" using allowed_not_space [OF U] la by blast
  moreover have "\<not> is_space 99" by (simp add: is_space_def)
  ultimately have n0: "strip is_space s = s"
    using s by (simp add: strip_def rstrip_id)
  have n2: "replace_disallowed U s = s" using al by (rule replace_disallowed_id)
  have n3: "collapse c_slash s = s" using nd by (rule nodouble_fixed)
  have "c_dot \<notin> set s" using al not_allowed_dot by blast
  then have n4: "collapse c_dot s = s" by (rule collapse_absent)
  have "\<not> trim_set 99" by (simp add: trim_set_def c_slash_def c_dot_def c_hyphen_def)
  then have n5: "strip trim_set s = s"
    using s la by (simp add: strip_def rstrip_id)
  show ?thesis
    using n0 n2 n3 n4 n5 pre
    by (simp add: normalize_branch_name_def Let_def)
qed

text \<open>
  Claim C3. The normalisation is idempotent and its result starts with \<open>c3/\<close>, for
  every input string (the empty one included), whatever the Unicode table \<open>U\<close> says
  about the characters beyond ASCII, as long as no word character is a blank.
\<close>

theorem normalize_idempotent_prefixed:
  assumes "\<forall>c\<ge>128. U c \<longrightarrow> \<not> is_space c"
  shows "normalize_branch_name U (normalize_branch_name U s) = normalize_branch_name U s \<and>
         startswith (normalize_branch_name U s) (ustr ''c3/'')"
  using normalize_fixed [OF assms normalize_good] normalize_good [of U s]
  by (simp add: good_def startswith_def)


text \<open>
  With \<open>U0\<close> (two non-ASCII letters) as the table: a name with a foreign prefix, blanks
  and dots, and a name made of non-ASCII letters and an ideographic space.
\<close>

theorem normalize_idempotent_prefixed_witness:
  "normalize_branch_name U0 (ustr '' feature/my new..branch-'') = ustr ''c3/my-new--branch'' \<and>
   normalize_branch_name U0 (ustr ''c3/my-new--branch'') = ustr ''c3/my-new--branch'' \<and>
   startswith (ustr ''c3/my-new--branch'') (ustr ''c3/'') \<and>
   normalize_branch_name U0 [32, 233, 47, 20013, 12288, 233, 46, 32] =
     ustr ''c3/'' @ [20013, 45, 233]"
proof -
  have h: "\<forall>c\<ge>128. U0 c \<longrightarrow> \<not> is_space c"
    by (auto simp: U0_def is_space_def)
  have v: "normalize_branch_name U0 (ustr '' feature/my new..branch-'') = ustr ''c3/my-new--branch''"
    by (simp add: normalize_branch_name_def Let_def strip_def rstrip_def is_space_def
        startswith_def ustr_def last_part_def replace_disallowed_def allowed_def is_word_def
        ascii_word_def U0_def trim_set_def c_slash_def c_dot_def c_hyphen_def)
  have w: "normalize_branch_name U0 [32, 233, 47, 20013, 12288, 233, 46, 32] =
     ustr ''c3/'' @ [20013, 45, 233]"
    by (simp add: normalize_branch_name_def Let_def strip_def rstrip_def is_space_def
        startswith_def ustr_def last_part_def replace_disallowed_def allowed_def is_word_def
        ascii_word_def U0_def trim_set_def c_slash_def c_dot_def c_hyphen_def)
  from normalize_idempotent_prefixed [OF h, of "ustr '' feature/my new..branch-''"] v w
  show ?thesis by simp
qed



section \<open>The remote repository as one tool call sees it\<close>

text \<open>
  The handlers talk to GitHub through PyGithub. The remote repository is a state: the
  default branch, the branches in enumeration order (name and commit SHA), the commit
  dates, the open pull requests (\<^verbatim>\<open>head.ref\<close>, \<^verbatim>\<open>base.ref\<close>), the commit history that
  \<^verbatim>\<open>get_commits(sha=...)\<close> lists, and the log of the calls performed on it. Nobody else
  changes the repository during a call.

  Every remote call of \<^verbatim>\<open>create_pull_request\<close> has a site; the environment may make the call
  at a site raise (network failure, permissions, rate limit). Without a fault the call
  answers from the state: \<^verbatim>\<open>get_branch\<close> raises 404 for a name that is not a branch,
  \<^verbatim>\<open>create_git_ref\<close> raises 422 for a name that is one already. The environment also holds what
  \<^verbatim>\<open>datetime.now()\<close> and \<^verbatim>\<open>random\<close> give and the fields of a created pull request.
\<close>

datatype event =
    EvPost string
  | EvGetRepo string
  | EvGetBranches
  | EvGetBranch string
  | EvGetPulls
  | EvCreateRef string string
  | EvGetCommits string
  | EvCreatePull string string string string

datatype site =
    SGetRepo | SBranches1 | SBranches2 | SBase | SHead1 | SPulls | SRef1 | SRef2
  | SHead2 | SCommitsHead | SCommitsBase | SCreatePull

record remote =
  default_branch :: string
  branches :: "(string \<times> string) list"
  commit_date :: "string \<Rightarrow> real option"
  open_pulls :: "(string \<times> string) list"
  history :: "string \<Rightarrow> string list"
  calls :: "event list"

record gh_env =
  fault :: "site \<Rightarrow> py_error option"
  date_str :: string
  time_str :: string
  now_ts :: real
  rand :: nat
  pr_number :: int
  pr_url :: string
  pr_created_at :: "string option"

definition record_call :: "event \<Rightarrow> remote \<Rightarrow> remote" where
  "record_call ev w = w\<lparr>calls := calls w @ [ev]\<rparr>"

definition get_repo :: "gh_env \<Rightarrow> string \<Rightarrow> remote \<Rightarrow> (py_error + unit) \<times> remote" where
  "get_repo x full_name w =
     (case fault x SGetRepo of
        Some err \<Rightarrow> (Inl err, record_call (EvGetRepo full_name) w)
      | None \<Rightarrow> (Inr (), record_call (EvGetRepo full_name) w))"

definition get_branches ::
  "gh_env \<Rightarrow> site \<Rightarrow> remote \<Rightarrow> (py_error + (string \<times> string) list) \<times> remote" where
  "get_branches x st w =
     (case fault x st of
        Some err \<Rightarrow> (Inl err, record_call EvGetBranches w)
      | None \<Rightarrow> (Inr (branches w), record_call EvGetBranches w))"

definition get_branch ::
  "gh_env \<Rightarrow> site \<Rightarrow> string \<Rightarrow> remote \<Rightarrow> (py_error + string \<times> string) \<times> remote" where
  "get_branch x st name w =
     (case fault x st of
        Some err \<Rightarrow> (Inl err, record_call (EvGetBranch name) w)
      | None \<Rightarrow>
          (case map_of (branches w) name of
             None \<Rightarrow> (Inl (GithubException 404), record_call (EvGetBranch name) w)
           | Some sha \<Rightarrow> (Inr (name, sha), record_call (EvGetBranch name) w)))"

definition get_pulls ::
  "gh_env \<Rightarrow> remote \<Rightarrow> (py_error + (string \<times> string) list) \<times> remote" where
  "get_pulls x w =
     (case fault x SPulls of
        Some err \<Rightarrow> (Inl err, record_call EvGetPulls w)
      | None \<Rightarrow> (Inr (open_pulls w), record_call EvGetPulls w))"

definition create_git_ref ::
  "gh_env \<Rightarrow> site \<Rightarrow> string \<Rightarrow> string \<Rightarrow> remote \<Rightarrow> (py_error + unit) \<times> remote" where
  "create_git_ref x st name sha w =
     (case fault x st of
        Some err \<Rightarrow> (Inl err, record_call (EvCreateRef name sha) w)
      | None \<Rightarrow>
          (if name \<in> fst ` set (branches w) then
             (Inl (GithubException 422), record_call (EvCreateRef name sha) w)
           else
             (Inr (), record_call (EvCreateRef name sha) (w\<lparr>branches := branches w @ [(name, sha)]\<rparr>))))"

definition get_commits ::
  "gh_env \<Rightarrow> site \<Rightarrow> string \<Rightarrow> remote \<Rightarrow> (py_error + string list) \<times> remote" where
  "get_commits x st sha w =
     (case fault x st of
        Some err \<Rightarrow> (Inl err, record_call (EvGetCommits sha) w)
      | None \<Rightarrow> (Inr (history w sha), record_call (EvGetCommits sha) w))"

definition create_pull ::
  "gh_env \<Rightarrow> string \<Rightarrow> string \<Rightarrow> string \<Rightarrow> string \<Rightarrow> remote \<Rightarrow> (py_error + unit) \<times> remote" where
  "create_pull x title body head base w =
     (case fault x SCreatePull of
        Some err \<Rightarrow> (Inl err, record_call (EvCreatePull title body head base) w)
      | None \<Rightarrow>
          (Inr (), record_call (EvCreatePull title body head base)
                     (w\<lparr>open_pulls := open_pulls w @ [(head, base)]\<rparr>)))"

section \<open>Tool results\<close>

text \<open>
  A handler returns a dictionary. \<open>JDumps v\<close> stands for the string \<^verbatim>\<open>json.dumps(v)\<close>;
  \<open>JText n ps\<close> stands for the message that the f-string at line \<open>n\<close> of
  \<^verbatim>\<open>server.py\<close> builds from the values \<open>ps\<close> (the texts are not ASCII).
\<close>

datatype json =
    JNull
  | JBool bool
  | JInt int
  | JStr string
  | JText nat "string list"
  | JList "json list"
  | JObj "(string \<times> json) list"
  | JDumps json

definition text_content :: "(string \<times> json) list \<Rightarrow> json" where
  "text_content obj =
     JObj [(''content'', JList [JObj [(''type'', JStr ''text''), (''text'', JDumps (JObj obj))]])]"

fun type_name :: "py_error \<Rightarrow> string" where
  "type_name ValueError = ''ValueError''"
| "type_name (GithubException st) = ''GithubException''"
| "type_name OtherException = ''Exception''"

text \<open>
  A handler either returns a result, or raises, or goes on with a value.
\<close>

datatype 'a outcome = Return json | Raise py_error | Next 'a

definition obind ::
  "'a outcome \<times> remote \<Rightarrow> ('a \<Rightarrow> remote \<Rightarrow> 'b outcome \<times> remote) \<Rightarrow> 'b outcome \<times> remote" where
  "obind m f =
     (case m of
        (Next a, w) \<Rightarrow> f a w
      | (Return r, w) \<Rightarrow> (Return r, w)
      | (Raise err, w) \<Rightarrow> (Raise err, w))"

section \<open>\<^verbatim>\<open>create_pull_request\<close>\<close>

text \<open>
  The handler is modelled step by step, in the order of the source (lines 911 to 1303).
  Reading an attribute of a branch or of a pull request does not raise in the model.
  \<^verbatim>\<open>owner\<close>, \<^verbatim>\<open>repo\<close>, \<^verbatim>\<open>head\<close>, \<^verbatim>\<open>base\<close> and \<^verbatim>\<open>body\<close> are \<^verbatim>\<open>None\<close> when the caller left
  them out; \<^verbatim>\<open>title\<close> is a string.
\<close>

fun py_str :: "string option \<Rightarrow> string" where
  "py_str None = ''None''"
| "py_str (Some s) = s"

fun jopt :: "string option \<Rightarrow> json" where
  "jopt None = JNull"
| "jopt (Some s) = JStr s"

definition log_posts :: "http_request list \<Rightarrow> remote \<Rightarrow> remote" where
  "log_posts rq w = w\<lparr>calls := calls w @ map (\<lambda>r. case r of Post url jwt \<Rightarrow> EvPost url) rq\<rparr>"

text \<open>Line 919: an absent or empty base becomes the default branch.\<close>

definition resolve_base :: "string option \<Rightarrow> remote \<Rightarrow> string" where
  "resolve_base base w =
     (case base of
        Some b \<Rightarrow> if b \<noteq> [] then b else default_branch w
      | None \<Rightarrow> default_branch w)"

text \<open>
  The date of a branch's last commit, or \<^verbatim>\<open>datetime.now()\<close> when the commit carries
  none (lines 947 to 958 and 1001 to 1010).
\<close>

definition pushed_at :: "gh_env \<Rightarrow> remote \<Rightarrow> string \<Rightarrow> real" where
  "pushed_at x w sha = (case commit_date w sha of Some d \<Rightarrow> d | None \<Rightarrow> now_ts x)"

text \<open>
  Lines 926 to 988: without a head, the branch other than base with the latest commit.
  Python's sort is stable, also with \<^verbatim>\<open>reverse=True\<close>; so is \<open>sort_key\<close>.
\<close>

definition auto_head :: "gh_env \<Rightarrow> string \<Rightarrow> remote \<Rightarrow> string outcome \<times> remote" where
  "auto_head x base w =
     (case get_branches x SBranches1 w of
        (Inl err, w1) \<Rightarrow> (Raise err, w1)
      | (Inr bs, w1) \<Rightarrow>
          (if bs = [] then
             (Return (text_content [(''success'', JBool False), (''error'', JText 934 [])]), w1)
           else
             (let branches_with_commits = filter (\<lambda>b. fst b \<noteq> base) bs in
              if branches_with_commits = [] then
                (Return (text_content
                   [(''success'', JBool False),
                    (''error'', JText 976 [base]),
                    (''available_branches'', JList (map (\<lambda>b. JStr (fst b)) bs)),
                    (''suggestion'', JText 978 [])]), w1)
              else
                (case sort_key (\<lambda>b. - pushed_at x w1 (snd b)) branches_with_commits of
                   [] \<Rightarrow> (Raise OtherException, w1)
                 | b # rest \<Rightarrow> (Next (fst b), w1)))))"

definition resolve_head ::
  "gh_env \<Rightarrow> string option \<Rightarrow> string \<Rightarrow> remote \<Rightarrow> string outcome \<times> remote" where
  "resolve_head x head base w =
     (case head of
        Some h \<Rightarrow> if h \<noteq> [] then (Next h, w) else auto_head x base w
      | None \<Rightarrow> auto_head x base w)"

text \<open>
  Lines 991 to 1040: when head and base are the same branch, another branch becomes the
  base; the sort key is the pair (is the default branch, minus the time stamp).
\<close>

definition other_base :: "gh_env \<Rightarrow> string \<Rightarrow> string \<Rightarrow> remote \<Rightarrow> string outcome \<times> remote" where
  "other_base x head base w =
     (if head = base then
        (case get_branches x SBranches2 w of
           (Inl err, w1) \<Rightarrow> (Raise err, w1)
         | (Inr bs, w1) \<Rightarrow>
             (let other_branches = filter (\<lambda>b. fst b \<noteq> head) bs in
              if other_branches = [] then
                (Return (text_content
                   [(''success'', JBool False),
                    (''error'', JText 1031 [head, base]),
                    (''suggestion'', JText 1032 [])]), w1)
              else
                (case sort_key (\<lambda>b. (fst b = default_branch w1, - pushed_at x w1 (snd b)))
                        other_branches of
                   [] \<Rightarrow> (Raise OtherException, w1)
                 | b # rest \<Rightarrow> (Next (fst b), w1))))
      else (Next base, w))"

text \<open>Lines 1042 to 1057 and 1113 to 1129: only a \<^verbatim>\<open>GithubException\<close> is caught here.\<close>

definition fetch_branch ::
  "gh_env \<Rightarrow> site \<Rightarrow> nat \<Rightarrow> string \<Rightarrow> remote \<Rightarrow> (string \<times> string) outcome \<times> remote" where
  "fetch_branch x st line name w =
     (case get_branch x st name w of
        (Inl (GithubException status), w1) \<Rightarrow>
          (Return (text_content
             [(''success'', JBool False),
              (''error'', JText line [name]),
              (''status'', JInt (int status)),
              (''error_type'', JStr ''GithubException'')]), w1)
      | (Inl err, w1) \<Rightarrow> (Raise err, w1)
      | (Inr b, w1) \<Rightarrow> (Next b, w1))"

text \<open>
  Lines 1079 to 1108: the new branch \<^verbatim>\<open>c3/<date>/<time>\<close> at the commit of head; after a
  422 one more attempt with \<^verbatim>\<open>random.randint(10, 99)\<close> appended. The result is the head to
  use and \<^verbatim>\<open>new_branch_created\<close>, or the exception that leaves the loop.
\<close>

definition randint_10_99 :: "gh_env \<Rightarrow> nat" where
  "randint_10_99 x = 10 + rand x mod 90"

definition digit_char :: "nat \<Rightarrow> char" where
  "digit_char d = char_of (48 + d)"

fun str_nat :: "nat \<Rightarrow> string" where
  "str_nat n = (if n < 10 then [digit_char n] else str_nat (n div 10) @ [digit_char (n mod 10)])"

declare str_nat.simps [simp del]

definition new_branch_name :: "gh_env \<Rightarrow> string" where
  "new_branch_name x = ''c3/'' @ date_str x @ ''/'' @ time_str x"

definition fork_branch ::
  "gh_env \<Rightarrow> string \<Rightarrow> remote \<Rightarrow> (py_error + string \<times> bool) \<times> remote" where
  "fork_branch x head_sha w =
     (case create_git_ref x SRef1 (new_branch_name x) head_sha w of
        (Inr u, w1) \<Rightarrow> (Inr (new_branch_name x, True), w1)
      | (Inl (GithubException status), w1) \<Rightarrow>
          (if status = 422 then
             (let name2 = new_branch_name x @ str_nat (randint_10_99 x) in
              case create_git_ref x SRef2 name2 head_sha w1 of
                (Inr u, w2) \<Rightarrow> (Inr (name2, True), w2)
              | (Inl err, w2) \<Rightarrow> (Inl err, w2))
           else (Inl (GithubException status), w1))
      | (Inl err, w1) \<Rightarrow> (Inl err, w1))"

text \<open>Lines 1069 to 1108: the loop over the open pull requests, left at the first match.\<close>

fun scan_pulls ::
  "gh_env \<Rightarrow> string \<Rightarrow> string \<Rightarrow> string \<Rightarrow> (string \<times> string) list \<Rightarrow> remote \<Rightarrow>
     (py_error + string \<times> bool) \<times> remote" where
  "scan_pulls x head base head_sha [] w = (Inr (head, False), w)"
| "scan_pulls x head base head_sha (existing_pr # rest) w =
     (if fst existing_pr = head \<and> snd existing_pr = base then fork_branch x head_sha w
      else scan_pulls x head base head_sha rest w)"

text \<open>
  Lines 1061 to 1111: the whole check sits in \<^verbatim>\<open>try\<close> with \<^verbatim>\<open>except Exception: pass\<close>; any
  exception leaves head and \<^verbatim>\<open>new_branch_created\<close> as they were.
\<close>

definition avoid_duplicate ::
  "gh_env \<Rightarrow> string \<Rightarrow> string \<Rightarrow> remote \<Rightarrow> (string \<times> bool) \<times> remote" where
  "avoid_duplicate x head base w =
     (case get_branch x SHead1 head w of
        (Inl err, w1) \<Rightarrow> ((head, False), w1)
      | (Inr head_branch, w1) \<Rightarrow>
          (case get_pulls x w1 of
             (Inl err, w2) \<Rightarrow> ((head, False), w2)
           | (Inr all_prs, w2) \<Rightarrow>
               (case scan_pulls x head base (snd head_branch) all_prs w2 of
                  (Inl err, w3) \<Rightarrow> ((head, False), w3)
                | (Inr r, w3) \<Rightarrow> (r, w3))))"

text \<open>Lines 1131 to 1146.\<close>

definition noop_guard ::
  "string \<Rightarrow> string \<Rightarrow> string \<Rightarrow> string \<Rightarrow> remote \<Rightarrow> unit outcome \<times> remote" where
  "noop_guard head base head_sha base_sha w =
     (if head_sha = base_sha then
        (Return (text_content
           [(''success'', JBool False),
            (''error'', JText 1139 [head, base]),
            (''head_sha'', JStr head_sha),
            (''base_sha'', JStr base_sha),
            (''suggestion'', JText 1142 [])]), w)
      else (Next (), w))"

text \<open>
  Lines 1150 to 1186: the commits of head that are not among the ten latest of base, at
  most five of them; the check is skipped when it raises.
\<close>

fun head_only_commits :: "string list \<Rightarrow> string set \<Rightarrow> string list \<Rightarrow> string list" where
  "head_only_commits [] base_shas acc = acc"
| "head_only_commits (c # cs) base_shas acc =
     (if c \<notin> base_shas then
        (if length (acc @ [c]) \<ge> 5 then acc @ [c]
         else head_only_commits cs base_shas (acc @ [c]))
      else head_only_commits cs base_shas acc)"

definition history_guard ::
  "gh_env \<Rightarrow> string \<Rightarrow> string \<Rightarrow> string \<Rightarrow> string \<Rightarrow> remote \<Rightarrow> unit outcome \<times> remote" where
  "history_guard x head base head_sha base_sha w =
     (case get_commits x SCommitsHead head_sha w of
        (Inl err, w1) \<Rightarrow> (Next (), w1)
      | (Inr head_commits, w1) \<Rightarrow>
          (case get_commits x SCommitsBase base_sha w1 of
             (Inl err, w2) \<Rightarrow> (Next (), w2)
           | (Inr base_commits, w2) \<Rightarrow>
               (let head_commit_shas = set (take 10 head_commits);
                    base_commit_shas = set (take 10 base_commits)
                in if head_commit_shas \<subseteq> base_commit_shas \<and> head_sha \<noteq> base_sha then
                     (if head_only_commits head_commits base_commit_shas [] = [] then
                        (Return (text_content
                           [(''success'', JBool False),
                            (''error'', JText 1176 [head, base]),
                            (''head_sha'', JStr head_sha),
                            (''base_sha'', JStr base_sha),
                            (''suggestion'', JText 1179 [])]), w2)
                      else (Next (), w2))
                   else (Next (), w2))))"

text \<open>Lines 1188 to 1227.\<close>

definition submit ::
  "gh_env \<Rightarrow> string option \<Rightarrow> string option \<Rightarrow> string \<Rightarrow> string option \<Rightarrow>
     string \<Rightarrow> string \<Rightarrow> string \<Rightarrow> bool \<Rightarrow> remote \<Rightarrow> unit outcome \<times> remote" where
  "submit x owner repo title body head base original_head new_branch_created w =
     (let body1 = (case body of Some b \<Rightarrow> b | None \<Rightarrow> []) in
      case create_pull x title body1 head base w of
        (Inl err, w1) \<Rightarrow> (Raise err, w1)
      | (Inr u, w1) \<Rightarrow>
          (Return (text_content
             ([(''success'', JBool True),
               (''owner'', jopt owner),
               (''repo'', jopt repo),
               (''pull_request'', JObj
                  [(''number'', JInt (pr_number x)),
                   (''title'', JStr title),
                   (''body'', JStr body1),
                   (''state'', JStr ''open''),
                   (''head'', JStr head),
                   (''base'', JStr base),
                   (''url'', JStr (pr_url x)),
                   (''created_at'', jopt (pr_created_at x))])]
              @ (if new_branch_created then
                   [(''message'', JText 1215 [original_head, base, head]),
                    (''new_branch'', JStr head),
                    (''original_head'', JStr original_head),
                    (''note'', JText 1218 [])]
                 else []))), w1))"

text \<open>
  The body of the outer \<^verbatim>\<open>try\<close>, after the client has been obtained, in two parts: the
  lines up to 1111, which settle the two branch names, and the lines from 1113 on.
\<close>

record resolved =
  r_head :: string
  r_base :: string
  r_base_sha :: string
  r_original_head :: string
  r_created :: bool

definition pr_resolve ::
  "gh_env \<Rightarrow> string option \<Rightarrow> string option \<Rightarrow> string option \<Rightarrow> string option \<Rightarrow>
     remote \<Rightarrow> resolved outcome \<times> remote" where
  "pr_resolve x owner repo head base w =
     (case get_repo x (py_str owner @ ''/'' @ py_str repo) w of
        (Inl err, w0) \<Rightarrow> (Raise err, w0)
      | (Inr u, w0) \<Rightarrow>
          (let base1 = resolve_base base w0 in
           obind (resolve_head x head base1 w0) (\<lambda>head1 w1.
           obind (other_base x head1 base1 w1) (\<lambda>base2 w2.
           obind (fetch_branch x SBase 1051 base2 w2) (\<lambda>base_branch w3.
           case avoid_duplicate x head1 base2 w3 of
             ((head2, new_branch_created), w4) \<Rightarrow>
               (Next \<lparr>r_head = head2, r_base = base2, r_base_sha = snd base_branch,
                      r_original_head = head1, r_created = new_branch_created\<rparr>, w4))))))"

definition pr_submit ::
  "gh_env \<Rightarrow> string option \<Rightarrow> string option \<Rightarrow> string \<Rightarrow> string option \<Rightarrow> resolved \<Rightarrow>
     remote \<Rightarrow> unit outcome \<times> remote" where
  "pr_submit x owner repo title body r w =
     obind (fetch_branch x SHead2 1123 (r_head r) w) (\<lambda>head_branch w5.
     obind (noop_guard (r_head r) (r_base r) (snd head_branch) (r_base_sha r) w5) (\<lambda>u w6.
     obind (history_guard x (r_head r) (r_base r) (snd head_branch) (r_base_sha r) w6) (\<lambda>u w7.
     submit x owner repo title body (r_head r) (r_base r) (r_original_head r) (r_created r) w7)))"

definition pr_steps ::
  "gh_env \<Rightarrow> string option \<Rightarrow> string option \<Rightarrow> string \<Rightarrow> string option \<Rightarrow>
     string option \<Rightarrow> string option \<Rightarrow> remote \<Rightarrow> unit outcome \<times> remote" where
  "pr_steps x owner repo title head base body w =
     obind (pr_resolve x owner repo head base w) (pr_submit x owner repo title body)"

text \<open>
  Lines 1228 to 1303: the two handlers of the outer \<^verbatim>\<open>try\<close>. The exceptions of the model
  carry a status only, so the key \<^verbatim>\<open>error_details\<close> (present when the exception carries
  messages) is left out, and the two suggestion texts for a 422 are one.
\<close>

fun handle_exception :: "py_error \<Rightarrow> json" where
  "handle_exception (GithubException status) =
     text_content
       ([(''success'', JBool False),
         (''error'', JText 1257 []),
         (''status'', JInt (int status)),
         (''error_type'', JStr ''GithubException'')]
        @ (if status = 422 then [(''suggestion'', JText 1268 [])] else []))"
| "handle_exception err =
     text_content
       [(''success'', JBool False),
        (''error'', JText 1282 []),
        (''error_type'', JStr (type_name err))]"

fun finish :: "unit outcome \<Rightarrow> json" where
  "finish (Return r) = r"
| "finish (Raise err) = handle_exception err"
| "finish (Next u) = JNull"

definition create_pull_request ::
  "tenv \<Rightarrow> gh_env \<Rightarrow> string option \<Rightarrow> string option \<Rightarrow> string \<Rightarrow> string option \<Rightarrow>
     string option \<Rightarrow> string option \<Rightarrow> server \<Rightarrow> remote \<Rightarrow> json \<times> server \<times> remote" where
  "create_pull_request e x owner repo title head base body s w =
     (case get_github_client e s of
        (Inl err, s1, rq) \<Rightarrow> (handle_exception err, s1, log_posts rq w)
      | (Inr gh, s1, rq) \<Rightarrow>
          (case pr_steps x owner repo title head base body (log_posts rq w) of
             (oc, w1) \<Rightarrow> (finish oc, s1, w1)))"


section \<open>Reading the call log and the results\<close>

text \<open>The calls that a handler added to the log, and the kinds of calls.\<close>

definition new_calls :: "remote \<Rightarrow> remote \<Rightarrow> event list" where
  "new_calls w w1 = drop (length (calls w)) (calls w1)"

fun is_post :: "event \<Rightarrow> bool" where
  "is_post (EvPost url) = True"
| "is_post ev = False"

fun is_get_pulls :: "event \<Rightarrow> bool" where
  "is_get_pulls EvGetPulls = True"
| "is_get_pulls ev = False"

fun is_create_ref :: "event \<Rightarrow> bool" where
  "is_create_ref (EvCreateRef name sha) = True"
| "is_create_ref ev = False"

fun is_get_commits :: "event \<Rightarrow> bool" where
  "is_get_commits (EvGetCommits sha) = True"
| "is_get_commits ev = False"

fun is_create_pull :: "event \<Rightarrow> bool" where
  "is_create_pull (EvCreatePull title body head base) = True"
| "is_create_pull ev = False"

text \<open>The dictionary inside a result of the shape \<open>text_content\<close>, and one of its keys.\<close>

fun payload :: "json \<Rightarrow> (string \<times> json) list option" where
  "payload (JObj [(k, JList [JObj [(k1, JStr t), (k2, JDumps (JObj obj))]])]) =
     (if k = ''content'' \<and> k1 = ''type'' \<and> t = ''text'' \<and> k2 = ''text'' then Some obj else None)"
| "payload r = None"

definition result_field :: "json \<Rightarrow> string \<Rightarrow> json option" where
  "result_field r key = (case payload r of None \<Rightarrow> None | Some obj \<Rightarrow> map_of obj key)"


section \<open>Effects of the remote calls\<close>

lemma record_call_fields [simp]:
  "calls (record_call ev w) = calls w @ [ev]"
  "branches (record_call ev w) = branches w"
  "open_pulls (record_call ev w) = open_pulls w"
  "default_branch (record_call ev w) = default_branch w"
  "commit_date (record_call ev w) = commit_date w"
  "history (record_call ev w) = history w"
  by (simp_all add: record_call_def)

lemma obind_Next [simp]: "obind (Next a, w) f = f a w"
  and obind_Return [simp]: "obind (Return r, w) f = (Return r, w)"
  and obind_Raise [simp]: "obind (Raise err, w) f = (Raise err, w)"
  by (simp_all add: obind_def)

lemma get_branches_snd [simp]: "snd (get_branches x st w) = record_call EvGetBranches w"
  by (simp add: get_branches_def split: option.splits)


lemma get_branch_snd [simp]: "snd (get_branch x st name w) = record_call (EvGetBranch name) w"
  by (simp add: get_branch_def split: option.splits)

lemma get_branch_Inr:
  "get_branch x st name w = (Inr b, w1) \<Longrightarrow>
     fst b = name \<and> map_of (branches w) name = Some (snd b) \<and> fault x st = None"
  by (auto simp: get_branch_def split: option.splits)

lemma get_pulls_snd [simp]: "snd (get_pulls x w) = record_call EvGetPulls w"
  by (simp add: get_pulls_def split: option.splits)

lemma get_pulls_Inr:
  "get_pulls x w = (Inr prs, w1) \<Longrightarrow> prs = open_pulls w \<and> fault x SPulls = None"
  by (auto simp: get_pulls_def split: option.splits)

lemma get_commits_snd [simp]: "snd (get_commits x st sha w) = record_call (EvGetCommits sha) w"
  by (simp add: get_commits_def split: option.splits)

lemma create_git_ref_calls [simp]:
  "calls (snd (create_git_ref x st name sha w)) = calls w @ [EvCreateRef name sha]"
  by (simp add: create_git_ref_def split: option.splits)

lemma create_git_ref_Inl:
  "create_git_ref x st name sha w = (Inl err, w1) \<Longrightarrow> w1 = record_call (EvCreateRef name sha) w"
  by (auto simp: create_git_ref_def split: option.splits if_splits)

lemma create_git_ref_Inr:
  "create_git_ref x st name sha w = (Inr u, w1) \<Longrightarrow>
     name \<notin> fst ` set (branches w) \<and> fault x st = None \<and>
     w1 = record_call (EvCreateRef name sha) (w\<lparr>branches := branches w @ [(name, sha)]\<rparr>)"
  by (auto simp: create_git_ref_def split: option.splits if_splits)

lemma create_pull_calls [simp]:
  "calls (snd (create_pull x title body head base w)) =
     calls w @ [EvCreatePull title body head base]"
  "branches (snd (create_pull x title body head base w)) = branches w"
  by (simp_all add: create_pull_def split: option.splits)

lemma sort_key_hd_mem: "sort_key f xs = b # rest \<Longrightarrow> b \<in> set xs"
  by (metis list.set_intros(1) set_sort)


section \<open>What each step does to the call log and to the branches\<close>

lemma auto_head_effect:
  assumes "auto_head x base w = (oc, w1)"
  shows "w1 = record_call EvGetBranches w"
    and "oc = Next h \<Longrightarrow> h \<noteq> base"
proof -
  obtain r w0 where g: "get_branches x SBranches1 w = (r, w0)"
    by (cases "get_branches x SBranches1 w") auto
  then have w0: "w0 = record_call EvGetBranches w"
    using get_branches_snd [of x SBranches1 w] by simp
  show "w1 = record_call EvGetBranches w"
    using assms g w0
    by (auto simp: auto_head_def Let_def split: sum.splits if_splits list.splits)
  show "h \<noteq> base" if "oc = Next h"
  proof -
    from assms g that obtain bs b rest where
      "sort_key (\<lambda>b. - pushed_at x w0 (snd b)) (filter (\<lambda>b. fst b \<noteq> base) bs) = b # rest"
      and "h = fst b"
      by (auto simp: auto_head_def Let_def split: sum.splits if_splits list.splits)
    then show ?thesis using sort_key_hd_mem by fastforce
  qed
qed

lemma resolve_head_effect:
  assumes "resolve_head x head base w = (oc, w1)"
  shows "w1 = w \<or> w1 = record_call EvGetBranches w"
    and "oc = Next h \<Longrightarrow> head = Some h \<or> h \<noteq> base"
  using assms auto_head_effect(1) [of x base w oc w1] auto_head_effect(2) [of x base w oc w1 h]
  by (auto simp: resolve_head_def split: option.splits if_splits)

lemma other_base_effect:
  assumes "other_base x head base w = (oc, w1)"
  shows "w1 = w \<or> w1 = record_call EvGetBranches w"
    and "oc = Next b \<Longrightarrow> b \<noteq> head"
proof -
  obtain r w0 where g: "get_branches x SBranches2 w = (r, w0)"
    by (cases "get_branches x SBranches2 w") auto
  then have w0: "w0 = record_call EvGetBranches w"
    using get_branches_snd [of x SBranches2 w] by simp
  show "w1 = w \<or> w1 = record_call EvGetBranches w"
    using assms g w0
    by (auto simp: other_base_def Let_def split: sum.splits if_splits list.splits)
  show "b \<noteq> head" if "oc = Next b"
  proof (cases "head = base")
    case False
    with assms that show ?thesis by (simp add: other_base_def)
  next
    case True
    with assms g that obtain bs c rest where
      "sort_key (\<lambda>b. (fst b = default_branch w0, - pushed_at x w0 (snd b)))
         (filter (\<lambda>b. fst b \<noteq> head) bs) = c # rest"
      and "b = fst c"
      by (auto simp: other_base_def Let_def split: sum.splits if_splits list.splits)
    then show ?thesis using sort_key_hd_mem by fastforce
  qed
qed

lemma fetch_branch_effect:
  assumes "fetch_branch x st line name w = (oc, w1)"
  shows "w1 = record_call (EvGetBranch name) w"
    and "oc = Next b \<Longrightarrow> fst b = name \<and> map_of (branches w) name = Some (snd b)"
proof -
  obtain r w0 where g: "get_branch x st name w = (r, w0)"
    by (cases "get_branch x st name w") auto
  then have w0: "w0 = record_call (EvGetBranch name) w"
    using get_branch_snd [of x st name w] by simp
  show "w1 = record_call (EvGetBranch name) w"
    using assms g w0
    by (auto simp: fetch_branch_def split: sum.splits py_error.splits)
  show "fst b = name \<and> map_of (branches w) name = Some (snd b)" if "oc = Next b"
    using assms g that get_branch_Inr [of x st name w b w0]
    by (auto simp: fetch_branch_def split: sum.splits py_error.splits)
qed

lemma new_calls_append [simp]: "calls w1 = calls w @ tr \<Longrightarrow> new_calls w w1 = tr"
  by (simp add: new_calls_def)

lemma payload_text_content [simp]: "payload (text_content obj) = Some obj"
  by (simp add: text_content_def)

lemma fork_branch_effect:
  assumes "fork_branch x sha w = (r, w1)"
  shows "\<exists>tr ext. calls w1 = calls w @ tr \<and> branches w1 = branches w @ ext \<and>
           (tr = [EvCreateRef (new_branch_name x) sha] \<or>
            tr = [EvCreateRef (new_branch_name x) sha,
                  EvCreateRef (new_branch_name x @ str_nat (randint_10_99 x)) sha] \<and>
            (fault x SRef1 = Some (GithubException 422) \<or>
             fault x SRef1 = None \<and> new_branch_name x \<in> fst ` set (branches w))) \<and>
           (case r of
              Inl err \<Rightarrow> ext = []
            | Inr (n, c) \<Rightarrow> c \<and> ext = [(n, sha)] \<and> n \<notin> fst ` set (branches w) \<and>
                (n = new_branch_name x \<or> n = new_branch_name x @ str_nat (randint_10_99 x)))"
  using assms
  by (auto simp: fork_branch_def create_git_ref_def Let_def record_call_def
      split: option.splits if_splits sum.splits py_error.splits)

lemma scan_pulls_effect:
  assumes "scan_pulls x head base sha prs w = (r, w1)"
  shows "(r = Inr (head, False) \<and> w1 = w \<and> (head, base) \<notin> set prs) \<or>
         (fork_branch x sha w = (r, w1) \<and> (head, base) \<in> set prs)"
  using assms
proof (induction prs)
  case Nil
  then show ?case by simp
next
  case (Cons p prs)
  then show ?case by (cases p) (auto split: if_splits)
qed

lemma avoid_duplicate_effect:
  assumes "avoid_duplicate x head base w = ((h2, c), w1)"
  shows "\<exists>tr ext. calls w1 = calls w @ EvGetBranch head # tr \<and>
           branches w1 = branches w @ ext \<and>
           (\<forall>ev\<in>set tr. is_get_pulls ev \<or> is_create_ref ev) \<and>
           length (filter is_create_ref tr) \<le> 2 \<and>
           (if c then
              (\<exists>sha. ext = [(h2, sha)] \<and> map_of (branches w) head = Some sha) \<and>
              h2 \<notin> fst ` set (branches w) \<and> (head, base) \<in> set (open_pulls w) \<and>
              (h2 = new_branch_name x \<or>
               h2 = new_branch_name x @ str_nat (randint_10_99 x))
            else h2 = head \<and> ext = [])"
proof -
  obtain r0 w0 where g0: "get_branch x SHead1 head w = (r0, w0)"
    by (cases "get_branch x SHead1 head w") auto
  then have w0: "w0 = record_call (EvGetBranch head) w"
    using get_branch_snd [of x SHead1 head w] by simp
  show ?thesis
  proof (cases r0)
    case (Inl err)
    with assms g0 w0 show ?thesis
      by (auto simp: avoid_duplicate_def)
  next
    case (Inr hb)
    then have hb: "map_of (branches w) head = Some (snd hb)"
      using g0 get_branch_Inr by blast
    obtain r1 w2 where g1: "get_pulls x w0 = (r1, w2)"
      by (cases "get_pulls x w0") auto
    then have w2: "w2 = record_call EvGetPulls w0"
      using get_pulls_snd [of x w0] by simp
    show ?thesis
    proof (cases r1)
      case (Inl err)
      with assms g0 g1 Inr w0 w2 show ?thesis
        by (auto simp: avoid_duplicate_def intro!: exI [of _ "[EvGetPulls]"])
    next
      case prs: (Inr prs)
      then have prs_eq: "prs = open_pulls w"
        using g1 get_pulls_Inr [of x w0 prs w2] w0 by simp
      obtain r3 w3 where g3: "scan_pulls x head base (snd hb) prs w2 = (r3, w3)"
        by (cases "scan_pulls x head base (snd hb) prs w2") auto
      from scan_pulls_effect [OF g3]
      show ?thesis
      proof
        assume a: "r3 = Inr (head, False) \<and> w3 = w2 \<and> (head, base) \<notin> set prs"
        with assms g0 g1 g3 Inr prs w0 w2 show ?thesis
          by (auto simp: avoid_duplicate_def intro!: exI [of _ "[EvGetPulls]"])
      next
        assume a: "fork_branch x (snd hb) w2 = (r3, w3) \<and> (head, base) \<in> set prs"
        then obtain tr ext where
          c: "calls w3 = calls w2 @ tr" and b: "branches w3 = branches w2 @ ext"
          and t: "tr = [EvCreateRef (new_branch_name x) (snd hb)] \<or>
            tr = [EvCreateRef (new_branch_name x) (snd hb),
                  EvCreateRef (new_branch_name x @ str_nat (randint_10_99 x)) (snd hb)]"
          and r: "case r3 of
              Inl err \<Rightarrow> ext = []
            | Inr (n, c) \<Rightarrow> c \<and> ext = [(n, snd hb)] \<and> n \<notin> fst ` set (branches w2) \<and>
                (n = new_branch_name x \<or> n = new_branch_name x @ str_nat (randint_10_99 x))"
          using fork_branch_effect [of x "snd hb" w2 r3 w3] by blast
        have res: "((h2, c), w1) = (case r3 of Inl err \<Rightarrow> ((head, False), w3) | Inr r \<Rightarrow> (r, w3))"
          using assms g0 g1 g3 Inr prs by (simp add: avoid_duplicate_def)
        have tr_ok: "(\<forall>ev\<in>set (EvGetPulls # tr). is_get_pulls ev \<or> is_create_ref ev) \<and>
                     length (filter is_create_ref (EvGetPulls # tr)) \<le> 2"
          using t by auto
        have cw: "calls w1 = calls w @ EvGetBranch head # EvGetPulls # tr"
          using res c w0 w2 by (cases r3) auto
        have bw: "branches w1 = branches w @ ext"
          using res b w0 w2 by (cases r3) auto
        have fin: "if c then
              (\<exists>sha. ext = [(h2, sha)] \<and> map_of (branches w) head = Some sha) \<and>
              h2 \<notin> fst ` set (branches w) \<and> (head, base) \<in> set (open_pulls w) \<and>
              (h2 = new_branch_name x \<or>
               h2 = new_branch_name x @ str_nat (randint_10_99 x))
            else h2 = head \<and> ext = []"
          using res r hb a prs_eq w0 w2 by (cases r3) auto
        from cw bw tr_ok fin show ?thesis by blast
      qed
    qed
  qed
qed

lemma history_guard_effect:
  assumes "history_guard x head base hs bs w = (oc, w1)"
  shows "\<exists>tr. calls w1 = calls w @ tr \<and> branches w1 = branches w \<and>
           (tr = [EvGetCommits hs] \<or> tr = [EvGetCommits hs, EvGetCommits bs])"
    and "\<forall>err. oc \<noteq> Raise err"
proof -
  obtain r0 w0 where g0: "get_commits x SCommitsHead hs w = (r0, w0)"
    by (cases "get_commits x SCommitsHead hs w") auto
  then have w0: "w0 = record_call (EvGetCommits hs) w"
    using get_commits_snd [of x SCommitsHead hs w] by simp
  obtain r1 w2 where g1: "get_commits x SCommitsBase bs w0 = (r1, w2)"
    by (cases "get_commits x SCommitsBase bs w0") auto
  then have w2: "w2 = record_call (EvGetCommits bs) w0"
    using get_commits_snd [of x SCommitsBase bs w0] by simp
  show "\<exists>tr. calls w1 = calls w @ tr \<and> branches w1 = branches w \<and>
           (tr = [EvGetCommits hs] \<or> tr = [EvGetCommits hs, EvGetCommits bs])"
    using assms g0 g1 w0 w2
    by (auto simp: history_guard_def Let_def split: sum.splits if_splits)
  show "\<forall>err. oc \<noteq> Raise err"
    using assms g0 g1
    by (auto simp: history_guard_def Let_def split: sum.splits if_splits)
qed

lemma submit_effect:
  assumes "submit x owner repo title body head base orig created w = (oc, w1)"
  shows "calls w1 = calls w @ [EvCreatePull title (case body of Some b \<Rightarrow> b | None \<Rightarrow> []) head base]"
    and "branches w1 = branches w"
proof -
  let ?b = "case body of Some b \<Rightarrow> b | None \<Rightarrow> []"
  obtain r0 w0 where g0: "create_pull x title ?b head base w = (r0, w0)"
    by (cases "create_pull x title ?b head base w") auto
  then have c: "calls w0 = calls w @ [EvCreatePull title ?b head base]"
    and b: "branches w0 = branches w"
    using create_pull_calls [of x title ?b head base w] by simp_all
  have "w1 = w0" using assms g0 by (auto simp: submit_def Let_def split: sum.splits)
  with c b show "calls w1 = calls w @ [EvCreatePull title ?b head base]"
    and "branches w1 = branches w" by simp_all
qed

lemma get_repo_snd [simp]: "snd (get_repo x full_name w) = record_call (EvGetRepo full_name) w"
  by (simp add: get_repo_def split: option.splits)

lemma map_of_append_keep:
  "map_of xs k = Some v \<Longrightarrow> map_of (xs @ ys) k = Some v"
  by (simp add: map_add_Some_iff)

lemma map_of_append_new:
  "k \<notin> fst ` set xs \<Longrightarrow> map_of (xs @ [(k, v)]) k = Some v"
  by (simp add: map_add_Some_iff map_of_eq_None_iff)

text \<open>
  The first part of the handler: its calls are neither history listings nor submissions,
  at most two of them create a branch, and the two names it settles differ.
\<close>

lemma pr_resolve_effect:
  assumes "pr_resolve x owner repo head base w = (oc, w1)"
  shows "\<exists>tr ext. calls w1 = calls w @ tr \<and> branches w1 = branches w @ ext \<and>
           (\<forall>ev\<in>set tr. \<not> is_get_commits ev \<and> \<not> is_create_pull ev \<and> \<not> is_post ev) \<and>
           length (filter is_create_ref tr) \<le> 2 \<and>
           (\<forall>r. oc = Next r \<longrightarrow>
              r_head r \<noteq> r_base r \<and>
              map_of (branches w1) (r_base r) = Some (r_base_sha r) \<and>
              (if r_created r then
                 (\<exists>sha. map_of (branches w1) (r_head r) = Some sha \<and>
                        map_of (branches w) (r_original_head r) = Some sha) \<and>
                 r_head r \<notin> fst ` set (branches w) \<and>
                 (r_original_head r, r_base r) \<in> set (open_pulls w) \<and>
                 (r_head r = new_branch_name x \<or>
                  r_head r = new_branch_name x @ str_nat (randint_10_99 x))
               else r_head r = r_original_head r \<and> ext = []))"
proof -
  let ?full = "py_str owner @ ''/'' @ py_str repo"
  let ?P = "\<lambda>tr. \<forall>ev\<in>set tr. \<not> is_get_commits ev \<and> \<not> is_create_pull ev \<and> \<not> is_post ev"
  obtain r0 w0 where g0: "get_repo x ?full w = (r0, w0)"
    by (cases "get_repo x ?full w") auto
  then have w0: "w0 = record_call (EvGetRepo ?full) w"
    using get_repo_snd [of x ?full w] by simp
  show ?thesis
  proof (cases r0)
    case (Inl err)
    with assms g0 w0 show ?thesis
      by (auto simp: pr_resolve_def)
  next
    case (Inr u)
    let ?base1 = "resolve_base base w0"
    obtain o1 wa where g1: "resolve_head x head ?base1 w0 = (o1, wa)"
      by (cases "resolve_head x head ?base1 w0") auto
    have wa: "wa = w0 \<or> wa = record_call EvGetBranches w0"
      using resolve_head_effect(1) [OF g1] .
    then obtain t1 where ca: "calls wa = calls w @ EvGetRepo ?full # t1"
      and ba: "branches wa = branches w" and pa: "?P t1" "filter is_create_ref t1 = []"
      and oa: "open_pulls wa = open_pulls w"
      using w0 by auto
    have step1: "pr_resolve x owner repo head base w =
        obind (o1, wa) (\<lambda>head1 w1.
           obind (other_base x head1 ?base1 w1) (\<lambda>base2 w2.
           obind (fetch_branch x SBase 1051 base2 w2) (\<lambda>base_branch w3.
           case avoid_duplicate x head1 base2 w3 of
             ((head2, new_branch_created), w4) \<Rightarrow>
               (Next \<lparr>r_head = head2, r_base = base2, r_base_sha = snd base_branch,
                      r_original_head = head1, r_created = new_branch_created\<rparr>, w4))))"
      using g0 g1 Inr by (simp add: pr_resolve_def Let_def)
    show ?thesis
    proof (cases o1)
      case (Return j)
      with assms step1 ca ba pa show ?thesis by auto
    next
      case (Raise err)
      with assms step1 ca ba pa show ?thesis by auto
    next
      case (Next head1)
      obtain o2 wb where g2: "other_base x head1 ?base1 wa = (o2, wb)"
        by (cases "other_base x head1 ?base1 wa") auto
      have wb: "wb = wa \<or> wb = record_call EvGetBranches wa"
        using other_base_effect(1) [OF g2] .
      then obtain t2 where cb: "calls wb = calls w @ EvGetRepo ?full # t2"
        and bb: "branches wb = branches w" and pb: "?P t2" "filter is_create_ref t2 = []"
        and ob: "open_pulls wb = open_pulls w"
        using ca ba pa oa by auto
      show ?thesis
      proof (cases o2)
        case (Return j)
        with assms step1 Next g2 cb bb pb show ?thesis by auto
      next
        case (Raise err)
        with assms step1 Next g2 cb bb pb show ?thesis by auto
      next
        case n2: (Next base2)
        have hb: "base2 \<noteq> head1" using other_base_effect(2) [OF g2 n2] .
        obtain o3 wc where g3: "fetch_branch x SBase 1051 base2 wb = (o3, wc)"
          by (cases "fetch_branch x SBase 1051 base2 wb") auto
        have wc: "wc = record_call (EvGetBranch base2) wb"
          using fetch_branch_effect(1) [OF g3] .
        then have cc: "calls wc = calls w @ EvGetRepo ?full # t2 @ [EvGetBranch base2]"
          and bc: "branches wc = branches w" and oc3: "open_pulls wc = open_pulls w"
          using cb bb ob by auto
        show ?thesis
        proof (cases o3)
          case (Return j)
          with assms step1 Next g2 n2 g3 cc bc pb show ?thesis by auto
        next
          case (Raise err)
          with assms step1 Next g2 n2 g3 cc bc pb show ?thesis by auto
        next
          case n3: (Next base_branch)
          have mb: "map_of (branches w) base2 = Some (snd base_branch)"
            using fetch_branch_effect(2) [OF g3 n3] bb by simp
          obtain h2 c wd where g4: "avoid_duplicate x head1 base2 wc = ((h2, c), wd)"
            by (cases "avoid_duplicate x head1 base2 wc") auto
          from avoid_duplicate_effect [OF g4] obtain t4 ext where
            cd: "calls wd = calls wc @ EvGetBranch head1 # t4"
            and bd: "branches wd = branches wc @ ext"
            and p4: "\<forall>ev\<in>set t4. is_get_pulls ev \<or> is_create_ref ev"
            and n4: "length (filter is_create_ref t4) \<le> 2"
            and f4: "if c then
              (\<exists>sha. ext = [(h2, sha)] \<and> map_of (branches wc) head1 = Some sha) \<and>
              h2 \<notin> fst ` set (branches wc) \<and> (head1, base2) \<in> set (open_pulls wc) \<and>
              (h2 = new_branch_name x \<or>
               h2 = new_branch_name x @ str_nat (randint_10_99 x))
            else h2 = head1 \<and> ext = []"
            by blast
          let ?r = "\<lparr>r_head = h2, r_base = base2, r_base_sha = snd base_branch,
                      r_original_head = head1, r_created = c\<rparr>"
          have res: "oc = Next ?r" "w1 = wd"
            using assms step1 Next g2 n2 g3 n3 g4 by simp_all
          let ?tr = "EvGetRepo ?full # t2 @ [EvGetBranch base2] @ EvGetBranch head1 # t4"
          have c1: "calls w1 = calls w @ ?tr" using res cd cc by simp
          have b1: "branches w1 = branches w @ ext" using res bd bc by simp
          have "\<forall>ev\<in>set t4. \<not> is_get_commits ev \<and> \<not> is_create_pull ev \<and> \<not> is_post ev"
          proof
            fix ev assume "ev \<in> set t4"
            with p4 have "is_get_pulls ev \<or> is_create_ref ev" by blast
            then show "\<not> is_get_commits ev \<and> \<not> is_create_pull ev \<and> \<not> is_post ev"
              by (cases ev) auto
          qed
          then have p1: "?P ?tr" using pb by auto
          have n1: "length (filter is_create_ref ?tr) \<le> 2" using pb n4 by simp
          have base_in: "base2 \<in> fst ` set (branches w)"
            using mb by (metis map_of_eq_None_iff option.distinct(1))
          have ne: "h2 \<noteq> base2"
            using f4 hb base_in bc by (cases c) auto
          have mb1: "map_of (branches w1) base2 = Some (snd base_branch)"
            unfolding b1 using mb by (rule map_of_append_keep)
          have fin: "if c then
                 (\<exists>sha. map_of (branches w1) h2 = Some sha \<and>
                        map_of (branches w) head1 = Some sha) \<and>
                 h2 \<notin> fst ` set (branches w) \<and>
                 (head1, base2) \<in> set (open_pulls w) \<and>
                 (h2 = new_branch_name x \<or>
                  h2 = new_branch_name x @ str_nat (randint_10_99 x))
               else h2 = head1 \<and> ext = []"
          proof (cases c)
            case True
            with f4 obtain sha where e: "ext = [(h2, sha)]"
              and m: "map_of (branches w) head1 = Some sha"
              and nin: "h2 \<notin> fst ` set (branches w)"
              and op: "(head1, base2) \<in> set (open_pulls w)"
              and nm: "h2 = new_branch_name x \<or>
                       h2 = new_branch_name x @ str_nat (randint_10_99 x)"
              using bc oc3 by auto
            have "map_of (branches w1) h2 = Some sha"
              unfolding b1 e using nin by (rule map_of_append_new)
            with True m nin op nm show ?thesis by auto
          next
            case False
            with f4 show ?thesis by simp
          qed
          have key: "\<forall>r. oc = Next r \<longrightarrow>
              r_head r \<noteq> r_base r \<and>
              map_of (branches w1) (r_base r) = Some (r_base_sha r) \<and>
              (if r_created r then
                 (\<exists>sha. map_of (branches w1) (r_head r) = Some sha \<and>
                        map_of (branches w) (r_original_head r) = Some sha) \<and>
                 r_head r \<notin> fst ` set (branches w) \<and>
                 (r_original_head r, r_base r) \<in> set (open_pulls w) \<and>
                 (r_head r = new_branch_name x \<or>
                  r_head r = new_branch_name x @ str_nat (randint_10_99 x))
               else r_head r = r_original_head r \<and> ext = [])"
            using ne mb1 fin res(1) by simp
          from c1 b1 p1 n1 key show ?thesis
            by (intro exI [of _ ?tr] exI [of _ ext]) blast
        qed
      qed
    qed
  qed
qed

lemma result_field_text_content [simp]:
  "result_field (text_content obj) key = map_of obj key"
  by (simp add: result_field_def)

lemma fetch_branch_Return:
  "fetch_branch x st line name w = (Return res, w1) \<Longrightarrow>
     result_field res ''success'' = Some (JBool False)"
  by (auto simp: fetch_branch_def split: prod.splits sum.splits py_error.splits)

lemma noop_guard_effect:
  assumes "noop_guard head base hs bs w = (oc, w1)"
  shows "w1 = w"
    and "(hs = bs \<and> (\<exists>res. oc = Return res \<and> result_field res ''success'' = Some (JBool False)
            \<and> result_field res ''error'' = Some (JText 1139 [head, base])))
         \<or> (hs \<noteq> bs \<and> oc = Next ())"
  using assms by (auto simp: noop_guard_def split: if_splits)

lemma history_guard_Return:
  "history_guard x head base hs bs w = (Return res, w1) \<Longrightarrow>
     result_field res ''success'' = Some (JBool False)"
  by (auto simp: history_guard_def Let_def split: prod.splits sum.splits if_splits)

text \<open>
  The second part of the handler: it fetches the head, may list the two histories, and
  either stops with a failure or reaches \<open>submit\<close>, with different commits at both ends.
\<close>

lemma pr_submit_cases:
  assumes "pr_submit x owner repo title body r w = (oc, w1)"
  shows "(\<exists>tr. calls w1 = calls w @ EvGetBranch (r_head r) # tr \<and> branches w1 = branches w \<and>
            (\<forall>ev\<in>set tr. is_get_commits ev) \<and>
            ((\<exists>res. oc = Return res \<and> result_field res ''success'' = Some (JBool False)) \<or>
             (\<exists>err. oc = Raise err)))
       \<or> (\<exists>tr w7 hs. calls w7 = calls w @ EvGetBranch (r_head r) # tr \<and>
            branches w7 = branches w \<and> (\<forall>ev\<in>set tr. is_get_commits ev) \<and>
            map_of (branches w) (r_head r) = Some hs \<and> hs \<noteq> r_base_sha r \<and>
            submit x owner repo title body (r_head r) (r_base r) (r_original_head r)
              (r_created r) w7 = (oc, w1))"
proof -
  obtain o1 w5 where g1: "fetch_branch x SHead2 1123 (r_head r) w = (o1, w5)"
    by (cases "fetch_branch x SHead2 1123 (r_head r) w") auto
  have w5: "w5 = record_call (EvGetBranch (r_head r)) w"
    using fetch_branch_effect(1) [OF g1] .
  then have c5: "calls w5 = calls w @ EvGetBranch (r_head r) # []" "branches w5 = branches w"
    by simp_all
  show ?thesis
  proof (cases o1)
    case (Return res)
    then have "result_field res ''success'' = Some (JBool False)"
      using g1 fetch_branch_Return by blast
    moreover have "oc = Return res" "w1 = w5"
      using assms g1 Return by (simp_all add: pr_submit_def)
    ultimately show ?thesis using c5 by (intro disjI1 exI [of _ "[]"]) simp
  next
    case (Raise err)
    then have "oc = Raise err" "w1 = w5"
      using assms g1 by (simp_all add: pr_submit_def)
    then show ?thesis using c5 by (intro disjI1 exI [of _ "[]"]) simp
  next
    case (Next hb)
    then have mh: "map_of (branches w) (r_head r) = Some (snd hb)"
      using fetch_branch_effect(2) [OF g1] by simp
    obtain o2 w6 where g2:
      "noop_guard (r_head r) (r_base r) (snd hb) (r_base_sha r) w5 = (o2, w6)"
      by (cases "noop_guard (r_head r) (r_base r) (snd hb) (r_base_sha r) w5") auto
    have w6: "w6 = w5" using noop_guard_effect(1) [OF g2] .
    from noop_guard_effect(2) [OF g2]
    show ?thesis
    proof
      assume a: "snd hb = r_base_sha r \<and>
        (\<exists>res. o2 = Return res \<and> result_field res ''success'' = Some (JBool False) \<and>
           result_field res ''error'' = Some (JText 1139 [r_head r, r_base r]))"
      then obtain res where "o2 = Return res"
        and s: "result_field res ''success'' = Some (JBool False)" by blast
      then have "oc = Return res" "w1 = w5"
        using assms g1 g2 Next w6 by (simp_all add: pr_submit_def)
      with s c5 show ?thesis by (intro disjI1 exI [of _ "[]"]) simp
    next
      assume a: "snd hb \<noteq> r_base_sha r \<and> o2 = Next ()"
      obtain o3 w7 where g3:
        "history_guard x (r_head r) (r_base r) (snd hb) (r_base_sha r) w6 = (o3, w7)"
        by (cases "history_guard x (r_head r) (r_base r) (snd hb) (r_base_sha r) w6") auto
      from history_guard_effect(1) [OF g3] obtain tr where
        c7: "calls w7 = calls w6 @ tr" and b7: "branches w7 = branches w6"
        and t7: "tr = [EvGetCommits (snd hb)] \<or>
                 tr = [EvGetCommits (snd hb), EvGetCommits (r_base_sha r)]"
        by blast
      have p7: "\<forall>ev\<in>set tr. is_get_commits ev" using t7 by auto
      have c7': "calls w7 = calls w @ EvGetBranch (r_head r) # tr" "branches w7 = branches w"
        using c7 b7 w6 c5 by simp_all
      have step: "pr_submit x owner repo title body r w =
          obind (o3, w7) (\<lambda>u w7. submit x owner repo title body (r_head r) (r_base r)
             (r_original_head r) (r_created r) w7)"
        using g1 g2 g3 Next a by (simp add: pr_submit_def)
      show ?thesis
      proof (cases o3)
        case (Return res)
        then have "result_field res ''success'' = Some (JBool False)"
          using g3 history_guard_Return by blast
        moreover have "oc = Return res" "w1 = w7"
          using assms step Return by simp_all
        ultimately show ?thesis using c7' p7 by (intro disjI1 exI [of _ tr]) simp
      next
        case (Raise err)
        with history_guard_effect(2) [OF g3] show ?thesis by simp
      next
        case n3: (Next u)
        then have "submit x owner repo title body (r_head r) (r_base r)
             (r_original_head r) (r_created r) w7 = (oc, w1)"
          using assms step by simp
        with c7' p7 mh a show ?thesis
          by (intro disjI2 exI [of _ tr] exI [of _ w7] exI [of _ "snd hb"]) simp
      qed
    qed
  qed
qed

lemma log_posts_fields [simp]:
  "calls (log_posts rq w) = calls w @ map (\<lambda>r. case r of Post url jwt \<Rightarrow> EvPost url) rq"
  "branches (log_posts rq w) = branches w"
  "open_pulls (log_posts rq w) = open_pulls w"
  "default_branch (log_posts rq w) = default_branch w"
  "commit_date (log_posts rq w) = commit_date w"
  by (simp_all add: log_posts_def)

lemma get_github_client_requests:
  "get_github_client e s = (r, s1, rq) \<Longrightarrow> length rq \<le> 1"
  using get_installation_token_requests [of e s]
  by (auto simp: get_github_client_def split: option.splits prod.splits sum.splits)

lemma posts_are_posts:
  "\<forall>ev\<in>set (map (\<lambda>r. case r of Post url jwt \<Rightarrow> EvPost url) rq). is_post ev"
  by (auto split: http_request.splits)

text \<open>
  The calls of one run of the handler: the token request (if any), then the calls of the
  first part, then the calls of the second part, which either contain no submission or
  end with the only one, sent for two different names whose commits differ.
\<close>

lemma create_pull_request_trace:
  assumes "create_pull_request e x owner repo title head base body s w = (res, s1, w1)"
  shows "\<exists>posts pre post. calls w1 = calls w @ posts @ pre @ post \<and>
           length posts \<le> 1 \<and> (\<forall>ev\<in>set posts. is_post ev) \<and>
           (\<forall>ev\<in>set pre. \<not> is_get_commits ev \<and> \<not> is_create_pull ev \<and> \<not> is_post ev) \<and>
           length (filter is_create_ref pre) \<le> 2 \<and>
           ((\<forall>ev\<in>set post. \<not> is_get_pulls ev \<and> \<not> is_create_ref ev \<and> \<not> is_post ev \<and>
                            \<not> is_create_pull ev) \<or>
            (\<exists>h bs b tr hs bsha.
               post = EvGetBranch h # tr @ [EvCreatePull title b h bs] \<and>
               (\<forall>ev\<in>set tr. is_get_commits ev) \<and> h \<noteq> bs \<and>
               map_of (branches w1) h = Some hs \<and> map_of (branches w1) bs = Some bsha \<and>
               hs \<noteq> bsha))"
proof -
  obtain r0 sa rq where g0: "get_github_client e s = (r0, sa, rq)"
    by (cases "get_github_client e s") auto
  let ?posts = "map (\<lambda>r. case r of Post url jwt \<Rightarrow> EvPost url) rq"
  have lp: "length ?posts \<le> 1" using get_github_client_requests [OF g0] by simp
  have pp: "\<forall>ev\<in>set ?posts. is_post ev" by (rule posts_are_posts)
  let ?w0 = "log_posts rq w"
  show ?thesis
  proof (cases r0)
    case (Inl err)
    then have "w1 = ?w0" using assms g0 by (simp add: create_pull_request_def)
    then have c1: "calls w1 = calls w @ ?posts @ [] @ []" by simp
    show ?thesis
    proof (intro exI conjI)
      show "calls w1 = calls w @ ?posts @ [] @ []" by (rule c1)
      show "length ?posts \<le> 1" by (rule lp)
      show "\<forall>ev\<in>set ?posts. is_post ev" by (rule pp)
      show "\<forall>ev\<in>set []. \<not> is_get_commits ev \<and> \<not> is_create_pull ev \<and> \<not> is_post ev"
        by simp
      show "length (filter is_create_ref []) \<le> 2" by simp
      show "(\<forall>ev\<in>set []. \<not> is_get_pulls ev \<and> \<not> is_create_ref ev \<and> \<not> is_post ev \<and>
                            \<not> is_create_pull ev) \<or>
            (\<exists>h bs b tr hs bsha.
               [] = EvGetBranch h # tr @ [EvCreatePull title b h bs] \<and>
               (\<forall>ev\<in>set tr. is_get_commits ev) \<and> h \<noteq> bs \<and>
               map_of (branches w1) h = Some hs \<and> map_of (branches w1) bs = Some bsha \<and>
               hs \<noteq> bsha)" by simp
    qed
  next
    case (Inr c)
    obtain oc wz where g1: "pr_steps x owner repo title head base body ?w0 = (oc, wz)"
      by (cases "pr_steps x owner repo title head base body ?w0") auto
    then have w1: "w1 = wz" using assms g0 Inr by (simp add: create_pull_request_def)
    obtain o1 wr where g2: "pr_resolve x owner repo head base ?w0 = (o1, wr)"
      by (cases "pr_resolve x owner repo head base ?w0") auto
    from pr_resolve_effect [OF g2] obtain pre ext where
      cr: "calls wr = calls ?w0 @ pre" and br: "branches wr = branches ?w0 @ ext"
      and pe: "\<forall>ev\<in>set pre. \<not> is_get_commits ev \<and> \<not> is_create_pull ev \<and> \<not> is_post ev"
      and ne: "length (filter is_create_ref pre) \<le> 2"
      and nx: "\<forall>r. o1 = Next r \<longrightarrow> r_head r \<noteq> r_base r \<and>
                 map_of (branches wr) (r_base r) = Some (r_base_sha r)"
      by blast
    have cr': "calls wr = calls w @ ?posts @ pre" using cr by simp
    have st: "pr_steps x owner repo title head base body ?w0 =
                obind (o1, wr) (pr_submit x owner repo title body)"
      using g2 by (simp add: pr_steps_def)
    show ?thesis
    proof (cases o1)
      case (Return j)
      then have "wz = wr" using st g1 by simp
      then have c1: "calls w1 = calls w @ ?posts @ pre @ []" using cr' w1 by simp
      show ?thesis
      proof (intro exI conjI)
        show "calls w1 = calls w @ ?posts @ pre @ []" by (rule c1)
        show "length ?posts \<le> 1" by (rule lp)
        show "\<forall>ev\<in>set ?posts. is_post ev" by (rule pp)
        show "\<forall>ev\<in>set pre. \<not> is_get_commits ev \<and> \<not> is_create_pull ev \<and> \<not> is_post ev"
          by (rule pe)
        show "length (filter is_create_ref pre) \<le> 2" by (rule ne)
        show "(\<forall>ev\<in>set []. \<not> is_get_pulls ev \<and> \<not> is_create_ref ev \<and> \<not> is_post ev \<and>
                            \<not> is_create_pull ev) \<or>
            (\<exists>h bs b tr hs bsha.
               [] = EvGetBranch h # tr @ [EvCreatePull title b h bs] \<and>
               (\<forall>ev\<in>set tr. is_get_commits ev) \<and> h \<noteq> bs \<and>
               map_of (branches w1) h = Some hs \<and> map_of (branches w1) bs = Some bsha \<and>
               hs \<noteq> bsha)" by simp
      qed
    next
      case (Raise err)
      then have "wz = wr" using st g1 by simp
      then have c1: "calls w1 = calls w @ ?posts @ pre @ []" using cr' w1 by simp
      show ?thesis
      proof (intro exI conjI)
        show "calls w1 = calls w @ ?posts @ pre @ []" by (rule c1)
        show "length ?posts \<le> 1" by (rule lp)
        show "\<forall>ev\<in>set ?posts. is_post ev" by (rule pp)
        show "\<forall>ev\<in>set pre. \<not> is_get_commits ev \<and> \<not> is_create_pull ev \<and> \<not> is_post ev"
          by (rule pe)
        show "length (filter is_create_ref pre) \<le> 2" by (rule ne)
        show "(\<forall>ev\<in>set []. \<not> is_get_pulls ev \<and> \<not> is_create_ref ev \<and> \<not> is_post ev \<and>
                            \<not> is_create_pull ev) \<or>
            (\<exists>h bs b tr hs bsha.
               [] = EvGetBranch h # tr @ [EvCreatePull title b h bs] \<and>
               (\<forall>ev\<in>set tr. is_get_commits ev) \<and> h \<noteq> bs \<and>
               map_of (branches w1) h = Some hs \<and> map_of (branches w1) bs = Some bsha \<and>
               hs \<noteq> bsha)" by simp
      qed
    next
      case (Next r)
      then have g3: "pr_submit x owner repo title body r wr = (oc, wz)"
        using st g1 by simp
      have hb: "r_head r \<noteq> r_base r"
        and mb: "map_of (branches wr) (r_base r) = Some (r_base_sha r)"
        using nx Next by simp_all
      from pr_submit_cases [OF g3]
      show ?thesis
      proof
        assume "\<exists>tr. calls wz = calls wr @ EvGetBranch (r_head r) # tr \<and>
            branches wz = branches wr \<and> (\<forall>ev\<in>set tr. is_get_commits ev) \<and>
            ((\<exists>res. oc = Return res \<and> result_field res ''success'' = Some (JBool False)) \<or>
             (\<exists>err. oc = Raise err))"
        then obtain tr where cz: "calls wz = calls wr @ EvGetBranch (r_head r) # tr"
          and pt: "\<forall>ev\<in>set tr. is_get_commits ev" by blast
        let ?post = "EvGetBranch (r_head r) # tr"
        have "\<forall>ev\<in>set ?post. \<not> is_get_pulls ev \<and> \<not> is_create_ref ev \<and> \<not> is_post ev \<and>
                            \<not> is_create_pull ev"
        proof
          fix ev assume "ev \<in> set ?post"
          then have "ev = EvGetBranch (r_head r) \<or> is_get_commits ev" using pt by auto
          then show "\<not> is_get_pulls ev \<and> \<not> is_create_ref ev \<and> \<not> is_post ev \<and>
                     \<not> is_create_pull ev"
            by (cases ev) auto
        qed
        then have po: "(\<forall>ev\<in>set ?post. \<not> is_get_pulls ev \<and> \<not> is_create_ref ev \<and>
                            \<not> is_post ev \<and> \<not> is_create_pull ev) \<or>
            (\<exists>h bs b tr hs bsha.
               ?post = EvGetBranch h # tr @ [EvCreatePull title b h bs] \<and>
               (\<forall>ev\<in>set tr. is_get_commits ev) \<and> h \<noteq> bs \<and>
               map_of (branches w1) h = Some hs \<and> map_of (branches w1) bs = Some bsha \<and>
               hs \<noteq> bsha)" by (rule disjI1)
        have c1: "calls w1 = calls w @ ?posts @ pre @ ?post"
          using cz cr' w1 by simp
        show ?thesis
        proof (intro exI conjI)
          show "calls w1 = calls w @ ?posts @ pre @ ?post" by (rule c1)
          show "length ?posts \<le> 1" by (rule lp)
          show "\<forall>ev\<in>set ?posts. is_post ev" by (rule pp)
          show "\<forall>ev\<in>set pre. \<not> is_get_commits ev \<and> \<not> is_create_pull ev \<and> \<not> is_post ev"
            by (rule pe)
          show "length (filter is_create_ref pre) \<le> 2" by (rule ne)
        qed (rule po)
      next
        assume "\<exists>tr w7 hs. calls w7 = calls wr @ EvGetBranch (r_head r) # tr \<and>
            branches w7 = branches wr \<and> (\<forall>ev\<in>set tr. is_get_commits ev) \<and>
            map_of (branches wr) (r_head r) = Some hs \<and> hs \<noteq> r_base_sha r \<and>
            submit x owner repo title body (r_head r) (r_base r) (r_original_head r)
              (r_created r) w7 = (oc, wz)"
        then obtain tr w7 hs where c7: "calls w7 = calls wr @ EvGetBranch (r_head r) # tr"
          and b7: "branches w7 = branches wr" and pt: "\<forall>ev\<in>set tr. is_get_commits ev"
          and mh: "map_of (branches wr) (r_head r) = Some hs" and hne: "hs \<noteq> r_base_sha r"
          and sb: "submit x owner repo title body (r_head r) (r_base r) (r_original_head r)
              (r_created r) w7 = (oc, wz)"
          by blast
        let ?b = "case body of Some b \<Rightarrow> b | None \<Rightarrow> []"
        let ?post = "EvGetBranch (r_head r) # tr @ [EvCreatePull title ?b (r_head r) (r_base r)]"
        have cz: "calls wz = calls w7 @ [EvCreatePull title ?b (r_head r) (r_base r)]"
          and bz: "branches wz = branches w7"
          using submit_effect [OF sb] by simp_all
        have c1: "calls w1 = calls w @ ?posts @ pre @ ?post"
          using cz c7 cr' w1 by simp
        have b1: "branches w1 = branches wr" using bz b7 w1 by simp
        have mh1: "map_of (branches w1) (r_head r) = Some hs"
          and mb1: "map_of (branches w1) (r_base r) = Some (r_base_sha r)"
          using mh mb b1 by simp_all
        have shape: "\<exists>h bs b tr hs bsha.
               ?post = EvGetBranch h # tr @ [EvCreatePull title b h bs] \<and>
               (\<forall>ev\<in>set tr. is_get_commits ev) \<and> h \<noteq> bs \<and>
               map_of (branches w1) h = Some hs \<and> map_of (branches w1) bs = Some bsha \<and>
               hs \<noteq> bsha"
        proof (intro exI conjI)
          show "?post = EvGetBranch (r_head r) # tr @ [EvCreatePull title ?b (r_head r) (r_base r)]"
            by (rule refl)
          show "\<forall>ev\<in>set tr. is_get_commits ev" by (rule pt)
          show "r_head r \<noteq> r_base r" by (rule hb)
          show "map_of (branches w1) (r_head r) = Some hs" by (rule mh1)
          show "map_of (branches w1) (r_base r) = Some (r_base_sha r)" by (rule mb1)
          show "hs \<noteq> r_base_sha r" by (rule hne)
        qed
        show ?thesis
        proof (intro exI conjI)
          show "calls w1 = calls w @ ?posts @ pre @ ?post" by (rule c1)
          show "length ?posts \<le> 1" by (rule lp)
          show "\<forall>ev\<in>set ?posts. is_post ev" by (rule pp)
          show "\<forall>ev\<in>set pre. \<not> is_get_commits ev \<and> \<not> is_create_pull ev \<and> \<not> is_post ev"
            by (rule pe)
          show "length (filter is_create_ref pre) \<le> 2" by (rule ne)
        qed (rule disjI2, rule shape)
      qed
    qed
  qed
qed


lemma pushed_at_record_call [simp]: "pushed_at x (record_call ev w) = pushed_at x w"
  by (rule ext) (simp add: pushed_at_def)

lemma handle_exception_success [simp]:
  "result_field (handle_exception err) ''success'' = Some (JBool False)"
  by (cases err) simp_all

lemma result_field_JNull [simp]: "result_field JNull key = None"
  by (simp add: result_field_def)


lemma is_post_not_create_pull: "is_post ev \<Longrightarrow> \<not> is_create_pull ev"
  by (cases ev) simp_all

text \<open>The three ways a run of the handler can go.\<close>

lemma create_pull_request_cases:
  assumes "create_pull_request e x owner repo title head base body s w = (res, s1, w1)"
  shows "(\<exists>err rq. get_github_client e s = (Inl err, s1, rq) \<and> res = handle_exception err \<and>
            w1 = log_posts rq w)
       \<or> (\<exists>c rq oc. get_github_client e s = (Inr c, s1, rq) \<and>
            pr_resolve x owner repo head base (log_posts rq w) = (oc, w1) \<and>
            (\<forall>r. oc \<noteq> Next r) \<and>
            (\<forall>j. oc = Return j \<longrightarrow> res = j) \<and>
            (\<forall>err. oc = Raise err \<longrightarrow> res = handle_exception err))
       \<or> (\<exists>c rq r wr oc. get_github_client e s = (Inr c, s1, rq) \<and>
            pr_resolve x owner repo head base (log_posts rq w) = (Next r, wr) \<and>
            pr_submit x owner repo title body r wr = (oc, w1) \<and> res = finish oc)"
proof -
  obtain r0 sa rq where g0: "get_github_client e s = (r0, sa, rq)"
    by (cases "get_github_client e s") auto
  show ?thesis
  proof (cases r0)
    case (Inl err)
    with assms g0 show ?thesis by (auto simp: create_pull_request_def)
  next
    case (Inr c)
    obtain o1 wr where g2: "pr_resolve x owner repo head base (log_posts rq w) = (o1, wr)"
      by (cases "pr_resolve x owner repo head base (log_posts rq w)") auto
    show ?thesis
    proof (cases o1)
      case (Return j)
      with assms g0 g2 Inr show ?thesis
        by (auto simp: create_pull_request_def pr_steps_def)
    next
      case (Raise err)
      with assms g0 g2 Inr show ?thesis
        by (auto simp: create_pull_request_def pr_steps_def)
    next
      case (Next r)
      obtain oc wz where g3: "pr_submit x owner repo title body r wr = (oc, wz)"
        by (cases "pr_submit x owner repo title body r wr") auto
      with assms g0 g2 Inr Next show ?thesis
        by (auto simp: create_pull_request_def pr_steps_def)
    qed
  qed
qed

lemma create_pull_in_trace:
  assumes "calls w1 = calls w @ posts @ pre @ late"
    and "\<forall>ev\<in>set posts. is_post ev"
    and "\<forall>ev\<in>set pre. \<not> is_get_commits ev \<and> \<not> is_create_pull ev \<and> \<not> is_post ev"
    and "EvCreatePull t b h bs \<in> set (new_calls w w1)"
  shows "EvCreatePull t b h bs \<in> set late"
proof -
  have "new_calls w w1 = posts @ pre @ late" using assms(1) by simp
  with assms(4) have "EvCreatePull t b h bs \<in> set posts \<union> set pre \<union> set late" by auto
  moreover have "EvCreatePull t b h bs \<notin> set posts" using assms(2) by fastforce
  moreover have "EvCreatePull t b h bs \<notin> set pre" using assms(3) by fastforce
  ultimately show ?thesis by blast
qed

text \<open>What a submission found in the log of a run tells.\<close>

lemma submitted_facts:
  assumes "create_pull_request e x owner repo title head base body s w = (res, s1, w1)"
    and "EvCreatePull t b h bs \<in> set (new_calls w w1)"
  shows "h \<noteq> bs \<and> (\<exists>hs bsha. map_of (branches w1) h = Some hs \<and>
           map_of (branches w1) bs = Some bsha \<and> hs \<noteq> bsha) \<and>
         last (new_calls w w1) = EvCreatePull t b h bs"
proof -
  from create_pull_request_trace [OF assms(1)] obtain posts pre late where
    c: "calls w1 = calls w @ posts @ pre @ late"
    and pp: "\<forall>ev\<in>set posts. is_post ev"
    and pe: "\<forall>ev\<in>set pre. \<not> is_get_commits ev \<and> \<not> is_create_pull ev \<and> \<not> is_post ev"
    and po: "(\<forall>ev\<in>set late. \<not> is_get_pulls ev \<and> \<not> is_create_ref ev \<and> \<not> is_post ev \<and>
                            \<not> is_create_pull ev) \<or>
            (\<exists>h bs b tr hs bsha.
               late = EvGetBranch h # tr @ [EvCreatePull title b h bs] \<and>
               (\<forall>ev\<in>set tr. is_get_commits ev) \<and> h \<noteq> bs \<and>
               map_of (branches w1) h = Some hs \<and> map_of (branches w1) bs = Some bsha \<and>
               hs \<noteq> bsha)"
    by blast
  have mem: "EvCreatePull t b h bs \<in> set late"
    using create_pull_in_trace [OF c pp pe assms(2)] .
  from po show ?thesis
  proof
    assume "\<forall>ev\<in>set late. \<not> is_get_pulls ev \<and> \<not> is_create_ref ev \<and> \<not> is_post ev \<and>
                            \<not> is_create_pull ev"
    with mem show ?thesis by fastforce
  next
    assume "\<exists>h bs b tr hs bsha.
               late = EvGetBranch h # tr @ [EvCreatePull title b h bs] \<and>
               (\<forall>ev\<in>set tr. is_get_commits ev) \<and> h \<noteq> bs \<and>
               map_of (branches w1) h = Some hs \<and> map_of (branches w1) bs = Some bsha \<and>
               hs \<noteq> bsha"
    then obtain h' bs' b' tr hs bsha where
      p: "late = EvGetBranch h' # tr @ [EvCreatePull title b' h' bs']"
      and t: "\<forall>ev\<in>set tr. is_get_commits ev" and ne: "h' \<noteq> bs'"
      and m: "map_of (branches w1) h' = Some hs" "map_of (branches w1) bs' = Some bsha"
      and d: "hs \<noteq> bsha"
      by blast
    have "EvCreatePull t b h bs \<notin> set tr" using t by fastforce
    with mem p have eq: "EvCreatePull t b h bs = EvCreatePull title b' h' bs'" by auto
    have "new_calls w w1 = posts @ pre @ late" using c by simp
    then have "last (new_calls w w1) = EvCreatePull title b' h' bs'" using p by simp
    with eq ne m d show ?thesis by auto
  qed
qed

section \<open>The guards of \<^verbatim>\<open>create_pull_request\<close>\<close>

text \<open>
  Claim C6. A run of \<^verbatim>\<open>create_pull_request\<close> submits a pull request only for two
  branches that point at different commits. When the head and the base that the handler
  has settled point at the same commit (the head fetched at line 1115 has the SHA of the
  base fetched at line 1043), the result is the failure with the text of line 1139
  (no differences), nothing is called after the fetch, and the log holds no submission.
\<close>

theorem noop_guard_stops_submission:
  assumes "create_pull_request e x owner repo title head base body s w = (res, s1, w1)"
  shows "(\<forall>t b h bs. EvCreatePull t b h bs \<in> set (new_calls w w1) \<longrightarrow>
            (\<exists>hs bsha. map_of (branches w1) h = Some hs \<and>
               map_of (branches w1) bs = Some bsha \<and> hs \<noteq> bsha)) \<and>
         (\<forall>c sa rq r w4 hb w5.
            get_github_client e s = (Inr c, sa, rq) \<and>
            pr_resolve x owner repo head base (log_posts rq w) = (Next r, w4) \<and>
            get_branch x SHead2 (r_head r) w4 = (Inr hb, w5) \<and> snd hb = r_base_sha r \<longrightarrow>
            result_field res ''success'' = Some (JBool False) \<and>
            result_field res ''error'' = Some (JText 1139 [r_head r, r_base r]) \<and>
            w1 = w5 \<and> \<not> list_ex is_create_pull (new_calls w w1))"
proof -
  have first: "\<exists>hs bsha. map_of (branches w1) h = Some hs \<and>
               map_of (branches w1) bs = Some bsha \<and> hs \<noteq> bsha"
    if "EvCreatePull t b h bs \<in> set (new_calls w w1)" for t b h bs
    using submitted_facts [OF assms that] by blast
  have second: "result_field res ''success'' = Some (JBool False) \<and>
            result_field res ''error'' = Some (JText 1139 [r_head r, r_base r]) \<and>
            w1 = w5 \<and> \<not> list_ex is_create_pull (new_calls w w1)"
    if a: "get_github_client e s = (Inr c, sa, rq) \<and>
            pr_resolve x owner repo head base (log_posts rq w) = (Next r, w4) \<and>
            get_branch x SHead2 (r_head r) w4 = (Inr hb, w5) \<and> snd hb = r_base_sha r"
    for c sa rq r w4 hb w5
  proof -
  from a have sub: "pr_submit x owner repo title body r w4 =
      (Return (text_content
           [(''success'', JBool False),
            (''error'', JText 1139 [r_head r, r_base r]),
            (''head_sha'', JStr (snd hb)),
            (''base_sha'', JStr (r_base_sha r)),
            (''suggestion'', JText 1142 [])]), w5)"
    by (simp add: pr_submit_def fetch_branch_def noop_guard_def)
  have run: "(res, s1, w1) = (text_content
           [(''success'', JBool False),
            (''error'', JText 1139 [r_head r, r_base r]),
            (''head_sha'', JStr (snd hb)),
            (''base_sha'', JStr (r_base_sha r)),
            (''suggestion'', JText 1142 [])], sa, w5)"
    using assms a sub by (simp add: create_pull_request_def pr_steps_def)
  have w5: "w5 = record_call (EvGetBranch (r_head r)) w4"
    using a get_branch_snd [of x SHead2 "r_head r" w4] by simp
  from pr_resolve_effect [of x owner repo head base "log_posts rq w" "Next r" w4] a
  obtain pre where cr: "calls w4 = calls (log_posts rq w) @ pre"
    and pe: "\<forall>ev\<in>set pre. \<not> is_get_commits ev \<and> \<not> is_create_pull ev \<and> \<not> is_post ev"
    by blast
  have "calls w1 = calls w @
      (map (\<lambda>r. case r of Post url jwt \<Rightarrow> EvPost url) rq @ pre @ [EvGetBranch (r_head r)])"
    using run w5 cr by simp
  then have nc: "new_calls w w1 =
      map (\<lambda>r. case r of Post url jwt \<Rightarrow> EvPost url) rq @ pre @ [EvGetBranch (r_head r)]"
    by (rule new_calls_append)
  have "\<forall>ev\<in>set (new_calls w w1). \<not> is_create_pull ev"
    unfolding nc using pe posts_are_posts [of rq] is_post_not_create_pull by auto
  then have "\<not> list_ex is_create_pull (new_calls w w1)"
    by (simp add: list_ex_iff)
  with run show ?thesis by simp
  qed
  from first second show ?thesis by blast
qed

section \<open>Example runs\<close>

text \<open>
  A repository with the branches \<open>main\<close> (the default, at commit \<open>s1\<close>) and \<open>dev\<close>,
  whose histories share only \<open>s0\<close>; the date and time are fixed, no call fails unless the
  fault table says so.
\<close>

definition demo_repo :: "string \<Rightarrow> (string \<times> string) list \<Rightarrow> remote" where
  "demo_repo dev_sha pulls =
     \<lparr>default_branch = ''main'',
      branches = [(''main'', ''s1''), (''dev'', dev_sha)],
      commit_date = (\<lambda>s. if s = ''s1'' then Some 10 else Some 20),
      open_pulls = pulls,
      history = (\<lambda>s. [s, ''s0'']),
      calls = []\<rparr>"

definition demo_env :: "(site \<Rightarrow> py_error option) \<Rightarrow> gh_env" where
  "demo_env f =
     \<lparr>fault = f, date_str = ''2026-11-04'', time_str = ''120000'', now_ts = 100,
      rand = 5, pr_number = 7, pr_url = ''u'', pr_created_at = None\<rparr>"

definition demo_call ::
  "gh_env \<Rightarrow> string \<Rightarrow> string \<Rightarrow> remote \<Rightarrow> json \<times> server \<times> remote" where
  "demo_call x head base w =
     create_pull_request (env_mint 2000 ''tok2'' ExpMissing) x (Some ''o'') (Some ''r'') ''t''
       (Some head) (Some base) None server2 w"

lemmas demo_defs =
  demo_call_def demo_repo_def demo_env_def create_pull_request_def get_github_client_def
  server2_def server1_def server0_def init_server_def env_mint_def log_posts_def
  pr_steps_def pr_resolve_def pr_submit_def get_repo_def record_call_def resolve_base_def
  resolve_head_def auto_head_def other_base_def get_branches_def fetch_branch_def
  get_branch_def avoid_duplicate_def get_pulls_def fork_branch_def create_git_ref_def
  new_branch_name_def noop_guard_def history_guard_def get_commits_def submit_def
  create_pull_def text_content_def pushed_at_def randint_10_99_def digit_char_def
  new_calls_def result_field_def Let_def

text \<open>
  \<open>dev\<close> and \<open>main\<close> at the same commit, no open pull request: the call for
  \<open>dev\<close> into \<open>main\<close> fails with the text of line 1139 and submits nothing.
\<close>

theorem noop_guard_stops_submission_witness:
  "result_field (fst (demo_call (demo_env (\<lambda>s. None)) ''dev'' ''main'' (demo_repo ''s1'' [])))
     ''error'' = Some (JText 1139 [''dev'', ''main'']) \<and>
   \<not> list_ex is_create_pull
       (new_calls (demo_repo ''s1'' [])
          (snd (snd (demo_call (demo_env (\<lambda>s. None)) ''dev'' ''main'' (demo_repo ''s1'' [])))))"
proof -
  let ?x = "demo_env (\<lambda>s. None)" and ?w = "demo_repo ''s1'' []"
  let ?e = "env_mint 2000 ''tok2'' ExpMissing"
  let ?r = "\<lparr>r_head = ''dev'', r_base = ''main'', r_base_sha = ''s1'',
             r_original_head = ''dev'', r_created = False\<rparr>"
  let ?w4 = "?w\<lparr>calls := [EvGetRepo ''o/r'', EvGetBranch ''main'', EvGetBranch ''dev'',
                           EvGetPulls]\<rparr>"
  obtain res s1 w1 where run: "demo_call ?x ''dev'' ''main'' ?w = (res, s1, w1)"
    by (cases "demo_call ?x ''dev'' ''main'' ?w") auto
  then have run': "create_pull_request ?e ?x (Some ''o'') (Some ''r'') ''t'' (Some ''dev'')
      (Some ''main'') None server2 ?w = (res, s1, w1)"
    by (simp add: demo_call_def)
  have c: "get_github_client ?e server2 = (Inr (Github ''tok1''), server2, [])"
    by (simp add: get_github_client_def server2_def)
  have p: "pr_resolve ?x (Some ''o'') (Some ''r'') (Some ''dev'') (Some ''main'')
             (log_posts [] ?w) = (Next ?r, ?w4)"
    by (simp add: demo_defs)
  have g: "get_branch ?x SHead2 (r_head ?r) ?w4 =
             (Inr (''dev'', ''s1''), record_call (EvGetBranch ''dev'') ?w4)"
    by (simp add: demo_defs)
  from noop_guard_stops_submission [OF run'] c p g
  have "result_field res ''error'' = Some (JText 1139 [r_head ?r, r_base ?r]) \<and>
        \<not> list_ex is_create_pull (new_calls ?w w1)"
    by fastforce
  with run show ?thesis by simp
qed


lemma resolve_base_record_call [simp]:
  "resolve_base base (record_call ev w) = resolve_base base w"
  "resolve_base base (log_posts rq w) = resolve_base base w"
  by (simp_all add: resolve_base_def split: option.splits)







section \<open>The order of the steps\<close>


text \<open>
  The second part of a run starts with the fetch of the head that the first part has
  settled; after it come only history listings and the submission.
\<close>

lemma pr_submit_calls:
  assumes "pr_submit x owner repo title body r wr = (oc, w1)"
  shows "\<exists>tr. calls w1 = calls wr @ EvGetBranch (r_head r) # tr \<and>
           (\<forall>ev\<in>set tr. is_get_commits ev \<or> is_create_pull ev)"
proof -
  from pr_submit_cases [OF assms] show ?thesis
  proof
    assume "\<exists>tr. calls w1 = calls wr @ EvGetBranch (r_head r) # tr \<and>
            branches w1 = branches wr \<and> (\<forall>ev\<in>set tr. is_get_commits ev) \<and>
            ((\<exists>res. oc = Return res \<and> result_field res ''success'' = Some (JBool False)) \<or>
             (\<exists>err. oc = Raise err))"
    then show ?thesis by blast
  next
    assume "\<exists>tr w7 hs. calls w7 = calls wr @ EvGetBranch (r_head r) # tr \<and>
            branches w7 = branches wr \<and> (\<forall>ev\<in>set tr. is_get_commits ev) \<and>
            map_of (branches wr) (r_head r) = Some hs \<and> hs \<noteq> r_base_sha r \<and>
            submit x owner repo title body (r_head r) (r_base r) (r_original_head r)
              (r_created r) w7 = (oc, w1)"
    then obtain tr w7 where c7: "calls w7 = calls wr @ EvGetBranch (r_head r) # tr"
      and pt: "\<forall>ev\<in>set tr. is_get_commits ev"
      and sb: "submit x owner repo title body (r_head r) (r_base r) (r_original_head r)
              (r_created r) w7 = (oc, w1)"
      by blast
    let ?cp = "EvCreatePull title (case body of Some b \<Rightarrow> b | None \<Rightarrow> []) (r_head r) (r_base r)"
    have "calls w1 = calls wr @ EvGetBranch (r_head r) # (tr @ [?cp])"
      using submit_effect(1) [OF sb] c7 by simp
    moreover have "\<forall>ev\<in>set (tr @ [?cp]). is_get_commits ev \<or> is_create_pull ev"
      using pt by simp
    ultimately show ?thesis by blast
  qed
qed

lemma pr_resolve_calls:
  assumes "pr_resolve x owner repo head base w0 = (oc, wr)"
  shows "\<exists>pre. calls wr = calls w0 @ pre \<and>
           (\<forall>ev\<in>set pre. \<not> is_get_commits ev \<and> \<not> is_create_pull ev \<and> \<not> is_post ev)"
  using pr_resolve_effect [OF assms] by blast




section \<open>The duplicate check\<close>

lemma fork_branch_created_faults:
  assumes "fork_branch x sha w = (Inr r, w1)"
  shows "(fault x SRef1 = None \<or> fault x SRef1 = Some (GithubException 422)) \<and>
         (fault x SRef1 = Some (GithubException 422) \<longrightarrow> fault x SRef2 = None)"
  using assms
  by (auto simp: fork_branch_def create_git_ref_def Let_def
      split: option.splits if_splits sum.splits py_error.splits)

lemma fork_branch_fails:
  assumes "fault x SRef1 = Some err"
    and "err = GithubException 422 \<longrightarrow> fault x SRef2 = Some err2"
  shows "\<exists>err' w1. fork_branch x sha w = (Inl err', w1)"
  using assms
  by (cases err) (auto simp: fork_branch_def create_git_ref_def Let_def)

text \<open>A branch is created only if nothing in the check has raised for good.\<close>

lemma avoid_duplicate_created_faults:
  assumes "avoid_duplicate x head base w = ((h2, True), w1)"
  shows "fault x SHead1 = None \<and> fault x SPulls = None \<and>
         (fault x SRef1 = None \<or> fault x SRef1 = Some (GithubException 422)) \<and>
         (fault x SRef1 = Some (GithubException 422) \<longrightarrow> fault x SRef2 = None)"
proof -
  obtain r0 w0 where g0: "get_branch x SHead1 head w = (r0, w0)"
    by (cases "get_branch x SHead1 head w") auto
  from assms g0 obtain hb where r0: "r0 = Inr hb"
    by (cases r0) (auto simp: avoid_duplicate_def)
  then have f0: "fault x SHead1 = None" using g0 get_branch_Inr by blast
  obtain r1 w2 where g1: "get_pulls x w0 = (r1, w2)"
    by (cases "get_pulls x w0") auto
  from assms g0 r0 g1 obtain prs where r1: "r1 = Inr prs"
    by (cases r1) (auto simp: avoid_duplicate_def)
  then have f1: "fault x SPulls = None" using g1 get_pulls_Inr by blast
  obtain r3 w3 where g3: "scan_pulls x head base (snd hb) prs w2 = (r3, w3)"
    by (cases "scan_pulls x head base (snd hb) prs w2") auto
  from assms g0 r0 g1 r1 g3 have r3: "r3 = Inr (h2, True)"
    by (cases r3) (auto simp: avoid_duplicate_def)
  from scan_pulls_effect [OF g3] r3 have "fork_branch x (snd hb) w2 = (Inr (h2, True), w3)"
    by auto
  from fork_branch_created_faults [OF this] f0 f1 show ?thesis by blast
qed

lemma pr_submit_create_pull:
  assumes "pr_submit x owner repo title body r wr = (oc, w1)"
    and "EvCreatePull t b h bs \<in> set (new_calls wr w1)"
  shows "h = r_head r \<and> bs = r_base r"
proof -
  from pr_submit_cases [OF assms(1)] show ?thesis
  proof
    assume "\<exists>tr. calls w1 = calls wr @ EvGetBranch (r_head r) # tr \<and>
            branches w1 = branches wr \<and> (\<forall>ev\<in>set tr. is_get_commits ev) \<and>
            ((\<exists>res. oc = Return res \<and> result_field res ''success'' = Some (JBool False)) \<or>
             (\<exists>err. oc = Raise err))"
    then obtain tr where c: "calls w1 = calls wr @ EvGetBranch (r_head r) # tr"
      and pt: "\<forall>ev\<in>set tr. is_get_commits ev" by blast
    from c have "new_calls wr w1 = EvGetBranch (r_head r) # tr" by (rule new_calls_append)
    with assms(2) pt show ?thesis by fastforce
  next
    assume "\<exists>tr w7 hs. calls w7 = calls wr @ EvGetBranch (r_head r) # tr \<and>
            branches w7 = branches wr \<and> (\<forall>ev\<in>set tr. is_get_commits ev) \<and>
            map_of (branches wr) (r_head r) = Some hs \<and> hs \<noteq> r_base_sha r \<and>
            submit x owner repo title body (r_head r) (r_base r) (r_original_head r)
              (r_created r) w7 = (oc, w1)"
    then obtain tr w7 where c7: "calls w7 = calls wr @ EvGetBranch (r_head r) # tr"
      and pt: "\<forall>ev\<in>set tr. is_get_commits ev"
      and sb: "submit x owner repo title body (r_head r) (r_base r) (r_original_head r)
              (r_created r) w7 = (oc, w1)"
      by blast
    let ?cp = "EvCreatePull title (case body of Some b \<Rightarrow> b | None \<Rightarrow> []) (r_head r) (r_base r)"
    have "calls w1 = calls wr @ (EvGetBranch (r_head r) # tr @ [?cp])"
      using submit_effect(1) [OF sb] c7 by simp
    then have "new_calls wr w1 = EvGetBranch (r_head r) # tr @ [?cp]"
      by (rule new_calls_append)
    with assms(2) pt show ?thesis by fastforce
  qed
qed

text \<open>A submission in the log of a run is for the names that the first part settled.\<close>

lemma submitted_is_resolved:
  assumes "create_pull_request e x owner repo title head base body s w = (res, s1, w1)"
    and "EvCreatePull t b h bs \<in> set (new_calls w w1)"
  shows "\<exists>c rq r wr. get_github_client e s = (Inr c, s1, rq) \<and>
           pr_resolve x owner repo head base (log_posts rq w) = (Next r, wr) \<and>
           h = r_head r \<and> bs = r_base r"
proof -
  from create_pull_request_cases [OF assms(1)]
  consider (a) err rq where "get_github_client e s = (Inl err, s1, rq)" "w1 = log_posts rq w"
    | (b) c rq oc where "get_github_client e s = (Inr c, s1, rq)"
        "pr_resolve x owner repo head base (log_posts rq w) = (oc, w1)"
    | (c) c rq r wr oc where "get_github_client e s = (Inr c, s1, rq)"
        "pr_resolve x owner repo head base (log_posts rq w) = (Next r, wr)"
        "pr_submit x owner repo title body r wr = (oc, w1)"
    by blast
  then show ?thesis
  proof cases
    case a
    then have "new_calls w w1 = map (\<lambda>r. case r of Post url jwt \<Rightarrow> EvPost url) rq"
      by (simp add: new_calls_def)
    with assms(2) posts_are_posts [of rq] have "is_post (EvCreatePull t b h bs)" by metis
    then show ?thesis by simp
  next
    case b
    from pr_resolve_calls [OF b(2)] obtain pre where
      cr: "calls w1 = calls (log_posts rq w) @ pre"
      and pe: "\<forall>ev\<in>set pre. \<not> is_get_commits ev \<and> \<not> is_create_pull ev \<and> \<not> is_post ev"
      by blast
    have "calls w1 = calls w @ (map (\<lambda>r. case r of Post url jwt \<Rightarrow> EvPost url) rq @ pre)"
      using cr by simp
    then have "new_calls w w1 = map (\<lambda>r. case r of Post url jwt \<Rightarrow> EvPost url) rq @ pre"
      by (rule new_calls_append)
    with assms(2) have "EvCreatePull t b h bs \<in>
        set (map (\<lambda>r. case r of Post url jwt \<Rightarrow> EvPost url) rq) \<union> set pre"
      by simp
    then have "is_post (EvCreatePull t b h bs) \<or> \<not> is_create_pull (EvCreatePull t b h bs)"
      using posts_are_posts [of rq] pe by blast
    then show ?thesis by simp
  next
    case c
    from pr_resolve_calls [OF c(2)] obtain pre where
      cr: "calls wr = calls (log_posts rq w) @ pre"
      and pe: "\<forall>ev\<in>set pre. \<not> is_get_commits ev \<and> \<not> is_create_pull ev \<and> \<not> is_post ev"
      by blast
    let ?posts = "map (\<lambda>r. case r of Post url jwt \<Rightarrow> EvPost url) rq"
    from pr_submit_calls [OF c(3)] obtain tr where
      cz: "calls w1 = calls wr @ EvGetBranch (r_head r) # tr" by blast
    have n1: "new_calls wr w1 = EvGetBranch (r_head r) # tr"
      using cz by (rule new_calls_append)
    have "calls w1 = calls w @ (?posts @ pre @ EvGetBranch (r_head r) # tr)"
      using cz cr by simp
    then have "new_calls w w1 = ?posts @ pre @ new_calls wr w1"
      using n1 by (simp add: new_calls_def)
    with assms(2) have "EvCreatePull t b h bs \<in> set ?posts \<union> set pre \<union> set (new_calls wr w1)"
      by auto
    moreover have "EvCreatePull t b h bs \<notin> set ?posts" using posts_are_posts [of rq] by fastforce
    moreover have "EvCreatePull t b h bs \<notin> set pre" using pe by fastforce
    ultimately have "EvCreatePull t b h bs \<in> set (new_calls wr w1)" by blast
    from pr_submit_create_pull [OF c(3) this] c(1,2) show ?thesis by blast
  qed
qed

text \<open>
  When the check raises, nothing has been created: the head and the branches are as they
  were. A head that is not a branch makes the first call of the check raise.
\<close>

lemma avoid_duplicate_raises:
  assumes "map_of (branches w) head = None \<or>
           fault x SHead1 = Some err \<or> fault x SPulls = Some err \<or>
           fault x SRef1 = Some err \<and> (err = GithubException 422 \<longrightarrow> fault x SRef2 = Some err2)"
  shows "fst (avoid_duplicate x head base w) = (head, False) \<and>
         branches (snd (avoid_duplicate x head base w)) = branches w"
proof -
  obtain h2 c w1 where g: "avoid_duplicate x head base w = ((h2, c), w1)"
    by (cases "avoid_duplicate x head base w") auto
  from avoid_duplicate_effect [OF g] obtain tr ext where
    b: "branches w1 = branches w @ ext"
    and i: "if c then (\<exists>sha. ext = [(h2, sha)] \<and> map_of (branches w) head = Some sha) \<and>
              h2 \<notin> fst ` set (branches w) \<and> (head, base) \<in> set (open_pulls w) \<and>
              (h2 = new_branch_name x \<or> h2 = new_branch_name x @ str_nat (randint_10_99 x))
            else h2 = head \<and> ext = []"
    by blast
  have "\<not> c"
  proof
    assume c
    with g have t: "avoid_duplicate x head base w = ((h2, True), w1)" by simp
    from i \<open>c\<close> have "map_of (branches w) head \<noteq> None" by auto
    with avoid_duplicate_created_faults [OF t] assms show False by auto
  qed
  with i b g show ?thesis by simp
qed

lemma pr_resolve_Next_state:
  assumes "pr_resolve x owner repo head base w = (Next r, wr)"
  shows "\<exists>w3. avoid_duplicate x (r_original_head r) (r_base r) w3 =
                 ((r_head r, r_created r), wr) \<and> branches w3 = branches w \<and>
              (\<forall>h. head = Some h \<and> h \<noteq> [] \<longrightarrow> r_original_head r = h)"
proof -
  let ?full = "py_str owner @ ''/'' @ py_str repo"
  obtain r0 w0 where g0: "get_repo x ?full w = (r0, w0)"
    by (cases "get_repo x ?full w") auto
  then have w0: "w0 = record_call (EvGetRepo ?full) w"
    using get_repo_snd [of x ?full w] by simp
  from assms g0 obtain u where r0: "r0 = Inr u"
    by (cases r0) (auto simp: pr_resolve_def)
  let ?base1 = "resolve_base base w0"
  obtain o1 wa where g1: "resolve_head x head ?base1 w0 = (o1, wa)"
    by (cases "resolve_head x head ?base1 w0") auto
  from assms g0 r0 g1 obtain head1 where o1: "o1 = Next head1"
    by (cases o1) (auto simp: pr_resolve_def Let_def)
  have hh: "\<forall>h. head = Some h \<and> h \<noteq> [] \<longrightarrow> head1 = h"
    using g1 o1 by (auto simp: resolve_head_def)
  have ba: "branches wa = branches w"
    using resolve_head_effect(1) [OF g1] w0 by auto
  obtain o2 wb where g2: "other_base x head1 ?base1 wa = (o2, wb)"
    by (cases "other_base x head1 ?base1 wa") auto
  from assms g0 r0 g1 o1 g2 obtain base2 where o2: "o2 = Next base2"
    by (cases o2) (auto simp: pr_resolve_def Let_def)
  have bb: "branches wb = branches w"
    using other_base_effect(1) [OF g2] ba by auto
  obtain o3 wc where g3: "fetch_branch x SBase 1051 base2 wb = (o3, wc)"
    by (cases "fetch_branch x SBase 1051 base2 wb") auto
  from assms g0 r0 g1 o1 g2 o2 g3 obtain bbr where o3: "o3 = Next bbr"
    by (cases o3) (auto simp: pr_resolve_def Let_def)
  have bc: "branches wc = branches w"
    using fetch_branch_effect(1) [OF g3] bb by simp
  obtain h2 c wd where g4: "avoid_duplicate x head1 base2 wc = ((h2, c), wd)"
    by (cases "avoid_duplicate x head1 base2 wc") auto
  from assms g0 r0 g1 o1 g2 o2 g3 o3 g4
  have "r = \<lparr>r_head = h2, r_base = base2, r_base_sha = snd bbr,
             r_original_head = head1, r_created = c\<rparr>" "wr = wd"
    by (simp_all add: pr_resolve_def Let_def)
  with g4 hh bc show ?thesis by auto
qed

text \<open>Line 1115 with a head that is not a branch: the error of line 1123.\<close>

lemma pr_submit_missing_head:
  assumes "map_of (branches wr) (r_head r) = None" and "fault x SHead2 = None"
  shows "pr_submit x owner repo title body r wr =
           (Return (text_content
              [(''success'', JBool False),
               (''error'', JText 1123 [r_head r]),
               (''status'', JInt 404),
               (''error_type'', JStr ''GithubException'')]),
            record_call (EvGetBranch (r_head r)) wr)"
  using assms by (simp add: pr_submit_def fetch_branch_def get_branch_def)

text \<open>Lines 1113 to 1227 when nothing stops the call.\<close>

lemma pr_submit_success:
  assumes mh: "map_of (branches wr) (r_head r) = Some hs" and ne: "hs \<noteq> r_base_sha r"
    and f2: "fault x SHead2 = None"
    and hg: "fst (history_guard x (r_head r) (r_base r) hs (r_base_sha r)
                    (record_call (EvGetBranch (r_head r)) wr)) = Next ()"
    and fc: "fault x SCreatePull = None"
    and nc: "\<not> r_created r"
  shows "\<exists>res w1 tr. pr_submit x owner repo title body r wr = (Return res, w1) \<and>
           result_field res ''success'' = Some (JBool True) \<and>
           result_field res ''new_branch'' = None \<and>
           new_calls wr w1 = EvGetBranch (r_head r) # tr @
             [EvCreatePull title (case body of Some b \<Rightarrow> b | None \<Rightarrow> []) (r_head r) (r_base r)]"
proof -
  let ?w5 = "record_call (EvGetBranch (r_head r)) wr"
  let ?b = "case body of Some b \<Rightarrow> b | None \<Rightarrow> []"
  obtain o3 w7 where g3: "history_guard x (r_head r) (r_base r) hs (r_base_sha r) ?w5 = (o3, w7)"
    by (cases "history_guard x (r_head r) (r_base r) hs (r_base_sha r) ?w5") auto
  with hg have o3: "o3 = Next ()" by simp
  from history_guard_effect(1) [OF g3] obtain tr where
    c7: "calls w7 = calls ?w5 @ tr" by blast
  obtain oc w1 where sb: "submit x owner repo title body (r_head r) (r_base r)
      (r_original_head r) (r_created r) w7 = (oc, w1)"
    by (cases "submit x owner repo title body (r_head r) (r_base r)
      (r_original_head r) (r_created r) w7") auto
  have ps: "pr_submit x owner repo title body r wr = (oc, w1)"
    using mh ne f2 g3 o3 sb
    by (simp add: pr_submit_def fetch_branch_def get_branch_def noop_guard_def)
  obtain res where oc: "oc = Return res"
    and su: "result_field res ''success'' = Some (JBool True)"
    and nb: "result_field res ''new_branch'' = None"
    using sb fc nc by (auto simp: submit_def create_pull_def Let_def)
  have "calls w1 = calls wr @ (EvGetBranch (r_head r) # tr @
      [EvCreatePull title ?b (r_head r) (r_base r)])"
    using submit_effect(1) [OF sb] c7 by simp
  then have n: "new_calls wr w1 = EvGetBranch (r_head r) # tr @
      [EvCreatePull title ?b (r_head r) (r_base r)]"
    by (rule new_calls_append)
  show ?thesis
  proof (intro exI conjI)
    show "pr_submit x owner repo title body r wr = (Return res, w1)" using ps oc by simp
    show "result_field res ''success'' = Some (JBool True)" by (rule su)
    show "result_field res ''new_branch'' = None" by (rule nb)
    show "new_calls wr w1 = EvGetBranch (r_head r) # tr @
      [EvCreatePull title ?b (r_head r) (r_base r)]" by (rule n)
  qed
qed

lemma create_pull_request_continues:
  assumes "create_pull_request e x owner repo title head base body s w = (res, s1, w1)"
    and "get_github_client e s = (Inr c, s1', rq)"
    and "pr_resolve x owner repo head base (log_posts rq w) = (Next r, wr)"
  shows "res = finish (fst (pr_submit x owner repo title body r wr)) \<and>
         w1 = snd (pr_submit x owner repo title body r wr)"
  using assms
  by (auto simp: create_pull_request_def pr_steps_def split: prod.splits)

text \<open>
  Claim C10, amended. The duplicate check is best effort. When fetching the head (line
  1065) raises, because the call fails or because the head is not a branch, or listing the
  open pull requests (line 1068) raises, or creating the branch raises for good (an error
  other than 422, or a second error after a 422), the exception is swallowed: the check
  hands back the head it was given with \<^verbatim>\<open>new_branch_created\<close> false and no branch
  created, and the call goes on at line 1113 with the head the caller named, as if there
  had been no check. The steps from there on report their own errors: for a head that is
  not a branch the result is the error of line 1123 and nothing is submitted. When the
  head is fetched, the commits differ, the history guard lets the call pass and the
  submission is accepted, the call succeeds, reports no new branch, and the last remote
  call submits the head the caller named into the base. In the example run the listing of
  the pull requests fails, the call succeeds, and it submits \<open>dev\<close> into \<open>main\<close> although
  that pull request is open already.
\<close>

definition pulls_down :: "site \<Rightarrow> py_error option" where
  "pulls_down st = (if st = SPulls then Some OtherException else None)"

theorem duplicate_check_best_effort:
  "(map_of (branches w) head = None \<or>
    fault x SHead1 = Some err \<or> fault x SPulls = Some err \<or>
    fault x SRef1 = Some err \<and> (err = GithubException 422 \<longrightarrow> fault x SRef2 = Some err2) \<longrightarrow>
      fst (avoid_duplicate x head base w) = (head, False) \<and>
      branches (snd (avoid_duplicate x head base w)) = branches w \<and>
      (create_pull_request e x owner repo title (Some head) base_arg body s w = (res, s1, w1) \<and>
       head \<noteq> [] \<longrightarrow>
         (EvCreatePull t b h bs \<in> set (new_calls w w1) \<longrightarrow> h = head) \<and>
         (get_github_client e s = (Inr c, s1, rq) \<and>
          pr_resolve x owner repo (Some head) base_arg (log_posts rq w) = (Next r, wr) \<longrightarrow>
            r_head r = head \<and> r_original_head r = head \<and> \<not> r_created r \<and>
            branches wr = branches w \<and>
            res = finish (fst (pr_submit x owner repo title body r wr)) \<and>
            w1 = snd (pr_submit x owner repo title body r wr) \<and>
            (map_of (branches w) head = None \<and> fault x SHead2 = None \<longrightarrow>
               res = text_content
                 [(''success'', JBool False),
                  (''error'', JText 1123 [head]),
                  (''status'', JInt 404),
                  (''error_type'', JStr ''GithubException'')] \<and>
               new_calls wr w1 = [EvGetBranch head]) \<and>
            (map_of (branches w) head = Some hs \<and> hs \<noteq> r_base_sha r \<and>
             fault x SHead2 = None \<and>
             fst (history_guard x head (r_base r) hs (r_base_sha r)
                    (record_call (EvGetBranch head) wr)) = Next () \<and>
             fault x SCreatePull = None \<longrightarrow>
               result_field res ''success'' = Some (JBool True) \<and>
               result_field res ''new_branch'' = None \<and>
               (\<exists>tr. new_calls wr w1 = EvGetBranch head # tr @
                  [EvCreatePull title (case body of Some b \<Rightarrow> b | None \<Rightarrow> []) head
                     (r_base r)]))))) \<and>
   (''dev'', ''main'') \<in> set (open_pulls (demo_repo ''s2'' [(''dev'', ''main'')])) \<and>
   new_calls (demo_repo ''s2'' [(''dev'', ''main'')])
     (snd (snd (demo_call (demo_env pulls_down) ''dev'' ''main''
                  (demo_repo ''s2'' [(''dev'', ''main'')])))) =
     [EvGetRepo ''o/r'', EvGetBranch ''main'', EvGetBranch ''dev'', EvGetPulls,
      EvGetBranch ''dev'', EvGetCommits ''s2'', EvGetCommits ''s1'',
      EvCreatePull ''t'' [] ''dev'' ''main''] \<and>
   result_field (fst (demo_call (demo_env pulls_down) ''dev'' ''main''
                        (demo_repo ''s2'' [(''dev'', ''main'')]))) ''success'' =
     Some (JBool True)"
proof -
  have general: "fst (avoid_duplicate x head base w) = (head, False) \<and>
      branches (snd (avoid_duplicate x head base w)) = branches w \<and>
      (create_pull_request e x owner repo title (Some head) base_arg body s w = (res, s1, w1) \<and>
       head \<noteq> [] \<longrightarrow>
         (EvCreatePull t b h bs \<in> set (new_calls w w1) \<longrightarrow> h = head) \<and>
         (get_github_client e s = (Inr c, s1, rq) \<and>
          pr_resolve x owner repo (Some head) base_arg (log_posts rq w) = (Next r, wr) \<longrightarrow>
            r_head r = head \<and> r_original_head r = head \<and> \<not> r_created r \<and>
            branches wr = branches w \<and>
            res = finish (fst (pr_submit x owner repo title body r wr)) \<and>
            w1 = snd (pr_submit x owner repo title body r wr) \<and>
            (map_of (branches w) head = None \<and> fault x SHead2 = None \<longrightarrow>
               res = text_content
                 [(''success'', JBool False),
                  (''error'', JText 1123 [head]),
                  (''status'', JInt 404),
                  (''error_type'', JStr ''GithubException'')] \<and>
               new_calls wr w1 = [EvGetBranch head]) \<and>
            (map_of (branches w) head = Some hs \<and> hs \<noteq> r_base_sha r \<and>
             fault x SHead2 = None \<and>
             fst (history_guard x head (r_base r) hs (r_base_sha r)
                    (record_call (EvGetBranch head) wr)) = Next () \<and>
             fault x SCreatePull = None \<longrightarrow>
               result_field res ''success'' = Some (JBool True) \<and>
               result_field res ''new_branch'' = None \<and>
               (\<exists>tr. new_calls wr w1 = EvGetBranch head # tr @
                  [EvCreatePull title (case body of Some b \<Rightarrow> b | None \<Rightarrow> []) head
                     (r_base r)]))))"
    if f: "map_of (branches w) head = None \<or>
           fault x SHead1 = Some err \<or> fault x SPulls = Some err \<or>
           fault x SRef1 = Some err \<and> (err = GithubException 422 \<longrightarrow> fault x SRef2 = Some err2)"
  proof -
    have keep: "fst (avoid_duplicate x head b0 w0) = (head, False) \<and>
        branches (snd (avoid_duplicate x head b0 w0)) = branches w0"
      if "branches w0 = branches w" for b0 w0
    proof -
      from f that have "map_of (branches w0) head = None \<or>
           fault x SHead1 = Some err \<or> fault x SPulls = Some err \<or>
           fault x SRef1 = Some err \<and> (err = GithubException 422 \<longrightarrow> fault x SRef2 = Some err2)"
        by simp
      then show ?thesis by (rule avoid_duplicate_raises)
    qed
    have a: "fst (avoid_duplicate x head base w) = (head, False) \<and>
      branches (snd (avoid_duplicate x head base w)) = branches w"
      using keep [of w base] by simp
    have res_facts: "r_head r = head \<and> r_original_head r = head \<and> \<not> r_created r \<and>
        branches wr = branches w"
      if p: "pr_resolve x owner repo (Some head) base_arg (log_posts rq w) = (Next r, wr)"
        and ne: "head \<noteq> []"
    proof -
      from pr_resolve_Next_state [OF p] ne obtain w3 where
        av: "avoid_duplicate x (r_original_head r) (r_base r) w3 =
              ((r_head r, r_created r), wr)"
        and b3: "branches w3 = branches w"
        and o: "r_original_head r = head" by auto
      from keep [of w3 "r_base r"] b3 av o show ?thesis by simp
    qed
    have sub: "h = head"
      if run: "create_pull_request e x owner repo title (Some head) base_arg body s w =
               (res, s1, w1)"
        and ne: "head \<noteq> []" and m: "EvCreatePull t b h bs \<in> set (new_calls w w1)"
    proof -
      from submitted_is_resolved [OF run m] obtain c' rq' r' wr' where
        p: "pr_resolve x owner repo (Some head) base_arg (log_posts rq' w) = (Next r', wr')"
        and h: "h = r_head r'" by blast
      from pr_resolve_Next_state [OF p] ne obtain w3 where
        av: "avoid_duplicate x (r_original_head r') (r_base r') w3 =
              ((r_head r', r_created r'), wr')"
        and b3: "branches w3 = branches (log_posts rq' w)"
        and o: "r_original_head r' = head" by auto
      from keep [of w3 "r_base r'"] b3 av o h show ?thesis by simp
    qed
    have cont: "res = finish (fst (pr_submit x owner repo title body r wr)) \<and>
        w1 = snd (pr_submit x owner repo title body r wr)"
      if run: "create_pull_request e x owner repo title (Some head) base_arg body s w =
               (res, s1, w1)"
        and cl: "get_github_client e s = (Inr c, s1, rq)"
        and p: "pr_resolve x owner repo (Some head) base_arg (log_posts rq w) = (Next r, wr)"
      using create_pull_request_continues [OF run cl p] .
    have missing: "res = text_content
                 [(''success'', JBool False),
                  (''error'', JText 1123 [head]),
                  (''status'', JInt 404),
                  (''error_type'', JStr ''GithubException'')] \<and>
               new_calls wr w1 = [EvGetBranch head]"
      if run: "create_pull_request e x owner repo title (Some head) base_arg body s w =
               (res, s1, w1)"
        and ne: "head \<noteq> []"
        and cl: "get_github_client e s = (Inr c, s1, rq)"
        and p: "pr_resolve x owner repo (Some head) base_arg (log_posts rq w) = (Next r, wr)"
        and mh: "map_of (branches w) head = None" and f2: "fault x SHead2 = None"
    proof -
      from res_facts [OF p ne] have rh: "r_head r = head" and bw: "branches wr = branches w"
        by simp_all
      have "map_of (branches wr) (r_head r) = None" using rh bw mh by simp
      from pr_submit_missing_head [OF this f2, of owner repo title body] cont [OF run cl p] rh
      show ?thesis by simp
    qed
    have success: "result_field res ''success'' = Some (JBool True) \<and>
               result_field res ''new_branch'' = None \<and>
               (\<exists>tr. new_calls wr w1 = EvGetBranch head # tr @
                  [EvCreatePull title (case body of Some b \<Rightarrow> b | None \<Rightarrow> []) head
                     (r_base r)])"
      if run: "create_pull_request e x owner repo title (Some head) base_arg body s w =
               (res, s1, w1)"
        and ne: "head \<noteq> []"
        and cl: "get_github_client e s = (Inr c, s1, rq)"
        and p: "pr_resolve x owner repo (Some head) base_arg (log_posts rq w) = (Next r, wr)"
        and mh: "map_of (branches w) head = Some hs" and d: "hs \<noteq> r_base_sha r"
        and f2: "fault x SHead2 = None"
        and hg: "fst (history_guard x head (r_base r) hs (r_base_sha r)
                    (record_call (EvGetBranch head) wr)) = Next ()"
        and fc: "fault x SCreatePull = None"
    proof -
      from res_facts [OF p ne] have rh: "r_head r = head" and bw: "branches wr = branches w"
        and nc: "\<not> r_created r" by simp_all
      have m: "map_of (branches wr) (r_head r) = Some hs" using rh bw mh by simp
      have hg': "fst (history_guard x (r_head r) (r_base r) hs (r_base_sha r)
                    (record_call (EvGetBranch (r_head r)) wr)) = Next ()"
        using hg rh by simp
      from pr_submit_success [OF m d f2 hg' fc nc, of owner repo title body]
      obtain res' w1' tr where ps: "pr_submit x owner repo title body r wr = (Return res', w1')"
        and su: "result_field res' ''success'' = Some (JBool True)"
        and nb: "result_field res' ''new_branch'' = None"
        and n: "new_calls wr w1' = EvGetBranch (r_head r) # tr @
             [EvCreatePull title (case body of Some b \<Rightarrow> b | None \<Rightarrow> []) (r_head r) (r_base r)]"
        by blast
      from cont [OF run cl p] ps have "res = res'" "w1 = w1'" by simp_all
      with su nb n rh show ?thesis by blast
    qed
    from a res_facts sub cont missing success show ?thesis by blast
  qed
  have ex1: "(''dev'', ''main'') \<in> set (open_pulls (demo_repo ''s2'' [(''dev'', ''main'')]))"
    by (simp add: demo_repo_def)
  have ex2: "new_calls (demo_repo ''s2'' [(''dev'', ''main'')])
     (snd (snd (demo_call (demo_env pulls_down) ''dev'' ''main''
                  (demo_repo ''s2'' [(''dev'', ''main'')])))) =
     [EvGetRepo ''o/r'', EvGetBranch ''main'', EvGetBranch ''dev'', EvGetPulls,
      EvGetBranch ''dev'', EvGetCommits ''s2'', EvGetCommits ''s1'',
      EvCreatePull ''t'' [] ''dev'' ''main'']"
    by (simp add: demo_defs pulls_down_def)
  have ex3: "result_field (fst (demo_call (demo_env pulls_down) ''dev'' ''main''
                        (demo_repo ''s2'' [(''dev'', ''main'')]))) ''success'' =
     Some (JBool True)"
    by (simp add: demo_defs pulls_down_def)
  from general ex1 ex2 ex3 show ?thesis by blast
qed

text \<open>
  Claim C10 as stated fails where it says that no error is reported and that the
  submission proceeds. The head \<open>ghost\<close> is not a branch: the fetch of line 1065 raises and
  is swallowed, the fetch of line 1115 raises again, and the call returns the error of
  line 1123 without submitting anything.
\<close>

theorem duplicate_check_error_counterexample:
  "map_of (branches (demo_repo ''s2'' [(''dev'', ''main'')])) ''ghost'' = None \<and>
   new_calls (demo_repo ''s2'' [(''dev'', ''main'')])
     (snd (snd (demo_call (demo_env (\<lambda>s. None)) ''ghost'' ''main''
                  (demo_repo ''s2'' [(''dev'', ''main'')])))) =
     [EvGetRepo ''o/r'', EvGetBranch ''main'', EvGetBranch ''ghost'', EvGetBranch ''ghost''] \<and>
   fst (demo_call (demo_env (\<lambda>s. None)) ''ghost'' ''main''
          (demo_repo ''s2'' [(''dev'', ''main'')])) =
     text_content
       [(''success'', JBool False),
        (''error'', JText 1123 [''ghost'']),
        (''status'', JInt 404),
        (''error_type'', JStr ''GithubException'')]"
  by (simp add: demo_defs)

text \<open>
  The two cases on the example repository: with the listing of the pull requests down the
  call for \<open>dev\<close> into \<open>main\<close> succeeds without a new branch; the call for \<open>ghost\<close> fails
  with the error of line 1123.
\<close>

theorem duplicate_check_best_effort_witness:
  "fault (demo_env pulls_down) SPulls = Some OtherException \<and>
   fst (avoid_duplicate (demo_env pulls_down) ''dev'' ''main''
          (demo_repo ''s2'' [(''dev'', ''main'')])) = (''dev'', False) \<and>
   result_field (fst (demo_call (demo_env pulls_down) ''dev'' ''main''
                        (demo_repo ''s2'' [(''dev'', ''main'')]))) ''success'' =
     Some (JBool True) \<and>
   result_field (fst (demo_call (demo_env pulls_down) ''dev'' ''main''
                        (demo_repo ''s2'' [(''dev'', ''main'')]))) ''new_branch'' = None \<and>
   map_of (branches (demo_repo ''s2'' [(''dev'', ''main'')])) ''ghost'' = None \<and>
   result_field (fst (demo_call (demo_env (\<lambda>s. None)) ''ghost'' ''main''
                        (demo_repo ''s2'' [(''dev'', ''main'')]))) ''error'' =
     Some (JText 1123 [''ghost''])"
proof -
  let ?x = "demo_env pulls_down" and ?y = "demo_env (\<lambda>s. None)"
  let ?w = "demo_repo ''s2'' [(''dev'', ''main'')]"
  let ?e = "env_mint 2000 ''tok2'' ExpMissing"
  let ?r = "\<lparr>r_head = ''dev'', r_base = ''main'', r_base_sha = ''s1'',
             r_original_head = ''dev'', r_created = False\<rparr>"
  let ?w4 = "?w\<lparr>calls := [EvGetRepo ''o/r'', EvGetBranch ''main'', EvGetBranch ''dev'',
                           EvGetPulls]\<rparr>"
  let ?g = "\<lparr>r_head = ''ghost'', r_base = ''main'', r_base_sha = ''s1'',
             r_original_head = ''ghost'', r_created = False\<rparr>"
  let ?w3 = "?w\<lparr>calls := [EvGetRepo ''o/r'', EvGetBranch ''main'', EvGetBranch ''ghost'']\<rparr>"
  have cl: "get_github_client ?e server2 = (Inr (Github ''tok1''), server2, [])"
    by (simp add: get_github_client_def server2_def)
  have f: "fault ?x SPulls = Some OtherException"
    by (simp add: demo_env_def pulls_down_def)
  then have h: "map_of (branches ?w) ''dev'' = None \<or>
      fault ?x SHead1 = Some OtherException \<or> fault ?x SPulls = Some OtherException \<or>
      fault ?x SRef1 = Some OtherException \<and>
      (OtherException = GithubException 422 \<longrightarrow> fault ?x SRef2 = Some OtherException)"
    by simp
  obtain res s1 w1 where run: "demo_call ?x ''dev'' ''main'' ?w = (res, s1, w1)"
    by (cases "demo_call ?x ''dev'' ''main'' ?w") auto
  then have run': "create_pull_request ?e ?x (Some ''o'') (Some ''r'') ''t'' (Some ''dev'')
      (Some ''main'') None server2 ?w = (res, s1, w1)"
    by (simp add: demo_call_def)
  have s1: "s1 = server2"
    using run' cl by (simp add: create_pull_request_def split: prod.splits)
  have p: "pr_resolve ?x (Some ''o'') (Some ''r'') (Some ''dev'') (Some ''main'')
             (log_posts [] ?w) = (Next ?r, ?w4)"
    by (simp add: demo_defs pulls_down_def)
  have ok: "map_of (branches ?w) ''dev'' = Some ''s2'' \<and> ''s2'' \<noteq> r_base_sha ?r \<and>
      fault ?x SHead2 = None \<and>
      fst (history_guard ?x ''dev'' (r_base ?r) ''s2'' (r_base_sha ?r)
             (record_call (EvGetBranch ''dev'') ?w4)) = Next () \<and>
      fault ?x SCreatePull = None"
    by (simp add: demo_defs pulls_down_def)
  have hyp1: "create_pull_request ?e ?x (Some ''o'') (Some ''r'') ''t'' (Some ''dev'')
      (Some ''main'') None server2 ?w = (res, s1, w1) \<and> ''dev'' \<noteq> []"
    using run' by simp
  have hyp2: "get_github_client ?e server2 = (Inr (Github ''tok1''), s1, []) \<and>
      pr_resolve ?x (Some ''o'') (Some ''r'') (Some ''dev'') (Some ''main'')
             (log_posts [] ?w) = (Next ?r, ?w4)"
    using cl s1 p by simp
  note T = duplicate_check_best_effort [where x = ?x and err = OtherException
      and ?err2.0 = OtherException and head = "''dev''" and base = "''main''" and w = ?w
      and hs = "''s2''", THEN conjunct1, THEN mp, OF h]
  note A = T [THEN conjunct1]
  note B = T [THEN conjunct2, THEN conjunct2, THEN mp, OF hyp1, THEN conjunct2, THEN mp,
      OF hyp2]
  from B ok have su: "result_field res ''success'' = Some (JBool True) \<and>
      result_field res ''new_branch'' = None"
    by blast
  have m: "map_of (branches ?w) ''ghost'' = None"
    by (simp add: demo_repo_def)
  then have hg: "map_of (branches ?w) ''ghost'' = None \<or>
      fault ?y SHead1 = Some OtherException \<or> fault ?y SPulls = Some OtherException \<or>
      fault ?y SRef1 = Some OtherException \<and>
      (OtherException = GithubException 422 \<longrightarrow> fault ?y SRef2 = Some OtherException)"
    by simp
  obtain res2 s2 w2 where rung: "demo_call ?y ''ghost'' ''main'' ?w = (res2, s2, w2)"
    by (cases "demo_call ?y ''ghost'' ''main'' ?w") auto
  then have rung': "create_pull_request ?e ?y (Some ''o'') (Some ''r'') ''t'' (Some ''ghost'')
      (Some ''main'') None server2 ?w = (res2, s2, w2)"
    by (simp add: demo_call_def)
  have s2: "s2 = server2"
    using rung' cl by (simp add: create_pull_request_def split: prod.splits)
  have pg: "pr_resolve ?y (Some ''o'') (Some ''r'') (Some ''ghost'') (Some ''main'')
             (log_posts [] ?w) = (Next ?g, ?w3)"
    by (simp add: demo_defs)
  have f2: "fault ?y SHead2 = None"
    by (simp add: demo_env_def)
  have hyp3: "create_pull_request ?e ?y (Some ''o'') (Some ''r'') ''t'' (Some ''ghost'')
      (Some ''main'') None server2 ?w = (res2, s2, w2) \<and> ''ghost'' \<noteq> []"
    using rung' by simp
  have hyp4: "get_github_client ?e server2 = (Inr (Github ''tok1''), s2, []) \<and>
      pr_resolve ?y (Some ''o'') (Some ''r'') (Some ''ghost'') (Some ''main'')
             (log_posts [] ?w) = (Next ?g, ?w3)"
    using cl s2 pg by simp
  note G = duplicate_check_best_effort [where x = ?y and err = OtherException
      and ?err2.0 = OtherException and head = "''ghost''" and base = "''main''" and w = ?w,
      THEN conjunct1, THEN mp, OF hg, THEN conjunct2, THEN conjunct2, THEN mp, OF hyp3,
      THEN conjunct2, THEN mp, OF hyp4]
  from G m f2 have "res2 = text_content
                 [(''success'', JBool False),
                  (''error'', JText 1123 [''ghost'']),
                  (''status'', JInt 404),
                  (''error_type'', JStr ''GithubException'')]"
    by blast
  then have er: "result_field res2 ''error'' = Some (JText 1123 [''ghost''])"
    by simp
  from f A su run m er rung show ?thesis by simp
qed


section \<open>The fork on an open duplicate\<close>















section \<open>Retries\<close>

lemma filter_none: "\<forall>ev\<in>set xs. \<not> P ev \<Longrightarrow> filter P xs = []"
  by (simp add: filter_empty_conv)












section \<open>The tool-call boundary\<close>














lemma obind_Next_cases:
  assumes "obind m f = (Next b, w1)"
  shows "\<exists>a w. m = (Next a, w) \<and> f a w = (Next b, w1)"
proof (cases m)
  case (Pair oc w)
  with assms show ?thesis by (cases oc) simp_all
qed











end
